theory Spec2Isabelle
  imports Complex_Main "HOL-Library.Multiset" "HOL-Library.AList"
begin

section \<open>The card game engine (blackjack.py, both variants)\<close>

text \<open>
  The class \<open>BlackJack\<close> of the two-player variant has the fields below; the class of the
  one-player variant has the same fields and \<open>dealer_limit\<close> in addition, so it is the
  extension \<open>BlackJack1\<close>. Cards, sums and the turn counter are Python integers.
  Probabilities are Python floats; they are modelled as real numbers, so every statement
  below is about exact arithmetic.
\<close>

record BlackJack =
  deck_copy :: "int list"
  blackjack_num :: int
  deck :: "int list"
  dealer_hand :: "int list"
  player_hand :: "int list"
  turn :: int

record BlackJack1 = BlackJack +
  dealer_limit :: int

text \<open>
  The exceptions the modelled code can raise. A \<open>ZeroDivisionError\<close> records the function
  whose division raised it, as the traceback of the Python exception does.
  \<open>RecursionError\<close> is what Python raises when the recursion depth budget is used up.
  \<open>OracleRaised\<close> wraps whatever the external policy object raised.
\<close>

datatype site = In_draw_prob | In_get_features | In_get_all_initial_states

datatype error =
    RecursionError
  | ZeroDivisionError site
  | ValueError
  | IndexError
  | TypeError
  | OracleRaised string

definition bind_e :: "error + 'a \<Rightarrow> ('a \<Rightarrow> error + 'b) \<Rightarrow> error + 'b" where
  "bind_e m f = (case m of Inl e \<Rightarrow> Inl e | Inr x \<Rightarrow> f x)"


text \<open>\<open>list.remove(x)\<close>: removes the first occurrence, \<open>ValueError\<close> when there is none.\<close>

definition list_remove :: "int list \<Rightarrow> int \<Rightarrow> error + int list" where
  "list_remove xs x = (if x \<in> set xs then Inr (remove1 x xs) else Inl ValueError)"


text \<open>\<open>is_game_over\<close> of the one-player variant (fixed dealer threshold).\<close>

definition is_game_over_1p :: "BlackJack1 \<Rightarrow> bool \<times> real option" where
  "is_game_over_1p g =
     (if turn g = 0 \<and> sum_list (player_hand g) > blackjack_num g then (True, Some 0)
      else if turn g = 1 then
        (if sum_list (dealer_hand g) > blackjack_num g then (True, Some 1)
         else if sum_list (dealer_hand g) \<ge> dealer_limit g then
           (if sum_list (player_hand g) > sum_list (dealer_hand g) then (True, Some 1)
            else if sum_list (player_hand g) < sum_list (dealer_hand g) then (True, Some 0)
            else (True, Some 0))
         else (False, None))
      else (False, None))"

text \<open>\<open>is_game_over\<close> of the two-player variant (the dealer stays by moving the turn to 2).\<close>

definition is_game_over_2p :: "BlackJack \<Rightarrow> bool \<times> real option" where
  "is_game_over_2p g =
     (if turn g = 0 \<and> sum_list (player_hand g) > blackjack_num g then (True, Some 0)
      else if turn g = 1 \<and> sum_list (dealer_hand g) > blackjack_num g then (True, Some 1)
      else if turn g = 2 then
        (if sum_list (player_hand g) > sum_list (dealer_hand g) then (True, Some 1)
         else if sum_list (player_hand g) < sum_list (dealer_hand g) then (True, Some 0)
         else (True, Some 0))
      else (False, None))"

text \<open>\<open>np.unique\<close> on a list of integers: the distinct values in ascending order.\<close>

definition np_unique :: "int list \<Rightarrow> int list" where
  "np_unique xs = sort (remdups xs)"

text \<open>
  \<open>get_features\<close>: the two normalised sums, then for every distinct card of the full deck
  its share of the remaining deck. Both divisions are Python divisions of integers and
  raise on a zero divisor.
\<close>

definition get_features :: "'a BlackJack_scheme \<Rightarrow> error + real list" where
  "get_features g =
     (if blackjack_num g = 0 then Inl (ZeroDivisionError In_get_features)
      else if np_unique (deck_copy g) \<noteq> [] \<and> length (deck g) = 0
        then Inl (ZeroDivisionError In_get_features)
      else Inr ([real_of_int (sum_list (dealer_hand g)) / real_of_int (blackjack_num g),
                 real_of_int (sum_list (player_hand g)) / real_of_int (blackjack_num g)] @
                map (\<lambda>crd. real (count_list (deck g) crd) / real (length (deck g)))
                  (np_unique (deck_copy g))))"

section \<open>State model (win_probability_analysis.py)\<close>

definition draw_prob :: "'a BlackJack_scheme \<Rightarrow> int \<Rightarrow> error + real" where
  "draw_prob game crd =
     (if length (deck game) = 0 then Inl (ZeroDivisionError In_draw_prob)
      else Inr (real (count_list (deck game) crd) / real (length (deck game))))"

type_synonym state_key = "int \<times> int \<times> int list \<times> int"

definition get_game_state_representation :: "'a BlackJack_scheme \<Rightarrow> state_key" where
  "get_game_state_representation game_state =
     (sum_list (dealer_hand game_state), sum_list (player_hand game_state),
      sort (deck game_state), turn game_state)"

text \<open>
  The body of the loops \<open>for card in np.unique(game_state.deck)\<close>: on a copy of the state,
  the card is appended to a hand and removed from the deck.
\<close>

definition dealer_hit :: "'a BlackJack_scheme \<Rightarrow> int \<Rightarrow> error + 'a BlackJack_scheme" where
  "dealer_hit g crd =
     bind_e (list_remove (deck g) crd) (\<lambda>d.
       Inr (g\<lparr>dealer_hand := dealer_hand g @ [crd], deck := d\<rparr>))"

definition player_hit :: "'a BlackJack_scheme \<Rightarrow> int \<Rightarrow> error + 'a BlackJack_scheme" where
  "player_hit g crd =
     bind_e (list_remove (deck g) crd) (\<lambda>d.
       Inr (g\<lparr>player_hand := player_hand g @ [crd], deck := d\<rparr>))"

text \<open>The copy on which a stay is evaluated: \<open>turn += 1\<close>.\<close>

definition stay :: "'a BlackJack_scheme \<Rightarrow> 'a BlackJack_scheme" where
  "stay g = g\<lparr>turn := turn g + 1\<rparr>"

text \<open>
  The hit loop shared by all four solvers. \<open>solve\<close> is the recursive call, \<open>hit\<close> the hand
  that receives the card, \<open>acc p v tot\<close> the update \<open>tot += p * v\<close> of the running totals;
  the memo table \<open>r\<close> is threaded through the iterations.
\<close>

primrec hit_loop ::
  "(real \<Rightarrow> 'v \<Rightarrow> 'v \<Rightarrow> 'v) \<Rightarrow>
   ('a BlackJack_scheme \<Rightarrow> int \<Rightarrow> error + 'a BlackJack_scheme) \<Rightarrow>
   ('a BlackJack_scheme \<Rightarrow> 'm \<Rightarrow> error + 'v \<times> 'm) \<Rightarrow>
   'a BlackJack_scheme \<Rightarrow> int list \<Rightarrow> 'v \<Rightarrow> 'm \<Rightarrow> error + 'v \<times> 'm" where
  "hit_loop acc hit solve g [] tot r = Inr (tot, r)"
| "hit_loop acc hit solve g (crd # cards) tot r =
     bind_e (draw_prob g crd) (\<lambda>card_draw_prob.
     bind_e (hit g crd) (\<lambda>hit_game_state.
     bind_e (solve hit_game_state r) (\<lambda>(v, r').
       hit_loop acc hit solve g cards (acc card_draw_prob v tot) r')))"

text \<open>The updates \<open>tot += card_draw_prob * v\<close> for one, two, three and four result slots.\<close>

definition acc1 :: "real \<Rightarrow> real \<Rightarrow> real \<Rightarrow> real" where
  "acc1 p v tot = tot + p * v"

definition acc2 :: "real \<Rightarrow> real \<times> real \<Rightarrow> real \<times> real \<Rightarrow> real \<times> real" where
  "acc2 p v tot = (case (v, tot) of ((v1, v2), (t1, t2)) \<Rightarrow> (t1 + p * v1, t2 + p * v2))"

definition acc3 ::
  "real \<Rightarrow> real \<times> real \<times> real \<Rightarrow> real \<times> real \<times> real \<Rightarrow> real \<times> real \<times> real" where
  "acc3 p v tot = (case (v, tot) of ((v1, v2, v3), (t1, t2, t3)) \<Rightarrow>
     (t1 + p * v1, t2 + p * v2, t3 + p * v3))"

definition acc4 ::
  "real \<Rightarrow> real \<times> real \<times> real \<times> real \<Rightarrow> real \<times> real \<times> real \<times> real \<Rightarrow>
   real \<times> real \<times> real \<times> real" where
  "acc4 p v tot = (case (v, tot) of ((v1, v2, v3, v4), (t1, t2, t3, t4)) \<Rightarrow>
     (t1 + p * v1, t2 + p * v2, t3 + p * v3, t4 + p * v4))"

section \<open>Memoized recursive solver, analytical rules\<close>

text \<open>
  The solvers recurse on game states and share a memo table \<open>record\<close> (a dictionary keyed by
  \<open>get_game_state_representation\<close>), which is passed in and returned updated. The first
  argument is the recursion depth still available: a call that would exceed it raises
  \<open>RecursionError\<close>, as the Python interpreter does at its recursion limit.
  \<open>is_game_over\<close> never answers \<open>(True, None)\<close>; if it did, the solver would hand
  \<open>None\<close> to its caller's arithmetic, which is the \<open>TypeError\<close> branch.
\<close>

type_synonym record_1p = "state_key \<rightharpoonup> real \<times> real"
type_synonym record_2p = "state_key \<rightharpoonup> real \<times> real \<times> real \<times> real"

text \<open>One-player variant: results are (optimal player, random player).\<close>

primrec get_theoretical_win_probability_1p ::
  "nat \<Rightarrow> BlackJack1 \<Rightarrow> record_1p \<Rightarrow> error + (real \<times> real) \<times> record_1p" where
  "get_theoretical_win_probability_1p 0 game_state record = Inl RecursionError"
| "get_theoretical_win_probability_1p (Suc n) game_state record =
     (case record (get_game_state_representation game_state) of
        Some v \<Rightarrow> Inr (v, record)
      | None \<Rightarrow>
         (case is_game_over_1p game_state of
            (True, Some result) \<Rightarrow> Inr ((result, result), record)
          | (True, None) \<Rightarrow> Inl TypeError
          | (False, _) \<Rightarrow>
             if turn game_state = 1 then
               bind_e (hit_loop acc2 dealer_hit (get_theoretical_win_probability_1p n)
                         game_state (np_unique (deck game_state)) (0, 0) record)
                 (\<lambda>(total, record').
                   Inr (total, record'(get_game_state_representation game_state \<mapsto> total)))
             else
               bind_e (get_theoretical_win_probability_1p n (stay game_state) record)
                 (\<lambda>((stay_optimal, stay_random), record1).
               bind_e (hit_loop acc2 player_hit (get_theoretical_win_probability_1p n)
                         game_state (np_unique (deck game_state)) (0, 0) record1)
                 (\<lambda>((hit_optimal, hit_random), record2).
                   let total = (max stay_optimal hit_optimal,
                                0.5 * stay_random + 0.5 * hit_random)
                   in Inr (total,
                           record2(get_game_state_representation game_state \<mapsto> total))))))"

text \<open>
  Two-player variant: results are (optimal player vs optimal dealer, optimal player vs
  random dealer, random player vs optimal dealer, random player vs random dealer).
\<close>

primrec get_theoretical_win_probability_2p ::
  "nat \<Rightarrow> BlackJack \<Rightarrow> record_2p \<Rightarrow> error + (real \<times> real \<times> real \<times> real) \<times> record_2p" where
  "get_theoretical_win_probability_2p 0 game_state record = Inl RecursionError"
| "get_theoretical_win_probability_2p (Suc n) game_state record =
     (case record (get_game_state_representation game_state) of
        Some v \<Rightarrow> Inr (v, record)
      | None \<Rightarrow>
         (case is_game_over_2p game_state of
            (True, Some result) \<Rightarrow> Inr ((result, result, result, result), record)
          | (True, None) \<Rightarrow> Inl TypeError
          | (False, _) \<Rightarrow>
             if turn game_state = 1 then
               bind_e (get_theoretical_win_probability_2p n (stay game_state) record)
                 (\<lambda>((stay_opod, stay_oprd, stay_rpod, stay_rprd), record1).
               bind_e (hit_loop acc4 dealer_hit (get_theoretical_win_probability_2p n)
                         game_state (np_unique (deck game_state)) (0, 0, 0, 0) record1)
                 (\<lambda>((hit_opod, hit_oprd, hit_rpod, hit_rprd), record2).
                   let total = (min stay_opod hit_opod,
                                0.5 * stay_oprd + 0.5 * hit_oprd,
                                min stay_rpod hit_rpod,
                                0.5 * stay_rprd + 0.5 * hit_rprd)
                   in Inr (total,
                           record2(get_game_state_representation game_state \<mapsto> total))))
             else
               bind_e (get_theoretical_win_probability_2p n (stay game_state) record)
                 (\<lambda>((stay_opod, stay_oprd, stay_rpod, stay_rprd), record1).
               bind_e (hit_loop acc4 player_hit (get_theoretical_win_probability_2p n)
                         game_state (np_unique (deck game_state)) (0, 0, 0, 0) record1)
                 (\<lambda>((hit_opod, hit_oprd, hit_rpod, hit_rprd), record2).
                   let total = (max stay_opod hit_opod,
                                max stay_oprd hit_oprd,
                                0.5 * stay_rpod + 0.5 * hit_rpod,
                                0.5 * stay_rprd + 0.5 * hit_rprd)
                   in Inr (total,
                           record2(get_game_state_representation game_state \<mapsto> total))))))"

section \<open>Policy-driven solver\<close>

text \<open>
  The trained agent is an external object; \<open>get_argmax_action_index\<close> is a parameter
  \<open>agent\<close> that maps the feature vector to an action index or raises. The query made by the
  solvers is \<open>agent.get_argmax_action_index(game_state.get_features())\<close>.
\<close>

type_synonym policy = "real list \<Rightarrow> string + int"

definition query :: "policy \<Rightarrow> 'a BlackJack_scheme \<Rightarrow> error + int" where
  "query agent game_state =
     bind_e (get_features game_state) (\<lambda>features.
       case agent features of Inl x \<Rightarrow> Inl (OracleRaised x) | Inr action_index \<Rightarrow> Inr action_index)"

type_synonym record_ai_1p = "state_key \<rightharpoonup> real"
type_synonym record_ai_2p = "state_key \<rightharpoonup> real \<times> real \<times> real"

primrec get_ai_win_probability_1p ::
  "nat \<Rightarrow> policy \<Rightarrow> BlackJack1 \<Rightarrow> record_ai_1p \<Rightarrow> error + real \<times> record_ai_1p" where
  "get_ai_win_probability_1p 0 agent game_state record = Inl RecursionError"
| "get_ai_win_probability_1p (Suc n) agent game_state record =
     (case record (get_game_state_representation game_state) of
        Some v \<Rightarrow> Inr (v, record)
      | None \<Rightarrow>
         (case is_game_over_1p game_state of
            (True, Some result) \<Rightarrow> Inr (result, record)
          | (True, None) \<Rightarrow> Inl TypeError
          | (False, _) \<Rightarrow>
             bind_e
               (if turn game_state = 1 then
                  hit_loop acc1 dealer_hit (get_ai_win_probability_1p n agent)
                    game_state (np_unique (deck game_state)) 0 record
                else
                  bind_e (query agent game_state) (\<lambda>action_index.
                    if action_index = 0 then
                      get_ai_win_probability_1p n agent (stay game_state) record
                    else
                      hit_loop acc1 player_hit (get_ai_win_probability_1p n agent)
                        game_state (np_unique (deck game_state)) 0 record))
               (\<lambda>(total, record').
                  Inr (total, record'(get_game_state_representation game_state \<mapsto> total)))))"

text \<open>
  Two-player variant: results are (agent player vs agent dealer, agent player vs random
  dealer, random player vs agent dealer).
\<close>

primrec get_ai_win_probability_2p ::
  "nat \<Rightarrow> policy \<Rightarrow> policy \<Rightarrow> BlackJack \<Rightarrow> record_ai_2p \<Rightarrow>
   error + (real \<times> real \<times> real) \<times> record_ai_2p" where
  "get_ai_win_probability_2p 0 player_agent dealer_agent game_state record = Inl RecursionError"
| "get_ai_win_probability_2p (Suc n) player_agent dealer_agent game_state record =
     (case record (get_game_state_representation game_state) of
        Some v \<Rightarrow> Inr (v, record)
      | None \<Rightarrow>
         (case is_game_over_2p game_state of
            (True, Some result) \<Rightarrow> Inr ((result, result, result), record)
          | (True, None) \<Rightarrow> Inl TypeError
          | (False, _) \<Rightarrow>
             if turn game_state = 1 then
               bind_e (query dealer_agent game_state) (\<lambda>action_index.
               bind_e (get_ai_win_probability_2p n player_agent dealer_agent
                         (stay game_state) record)
                 (\<lambda>((stay_apad, stay_aprd, stay_rpad), record1).
               bind_e (hit_loop acc3 dealer_hit
                         (get_ai_win_probability_2p n player_agent dealer_agent)
                         game_state (np_unique (deck game_state)) (0, 0, 0) record1)
                 (\<lambda>((hit_apad, hit_aprd, hit_rpad), record2).
                   let total =
                     (if action_index = 0
                      then (stay_apad, 0.5 * stay_aprd + 0.5 * hit_aprd, stay_rpad)
                      else (hit_apad, 0.5 * stay_aprd + 0.5 * hit_aprd, hit_rpad))
                   in Inr (total,
                           record2(get_game_state_representation game_state \<mapsto> total)))))
             else
               bind_e (query player_agent game_state) (\<lambda>action_index.
               bind_e (get_ai_win_probability_2p n player_agent dealer_agent
                         (stay game_state) record)
                 (\<lambda>((stay_apad, stay_aprd, stay_rpad), record1).
               bind_e (hit_loop acc3 player_hit
                         (get_ai_win_probability_2p n player_agent dealer_agent)
                         game_state (np_unique (deck game_state)) (0, 0, 0) record1)
                 (\<lambda>((hit_apad, hit_aprd, hit_rpad), record2).
                   let total =
                     (if action_index = 0
                      then (stay_apad, stay_aprd, 0.5 * stay_rpad + 0.5 * hit_rpad)
                      else (hit_apad, hit_aprd, 0.5 * stay_rpad + 0.5 * hit_rpad))
                   in Inr (total,
                           record2(get_game_state_representation game_state \<mapsto> total)))))))"

section \<open>Initial-state enumerator\<close>









section \<open>Notions used to state the properties\<close>

text \<open>The exceptions that can leave a policy-driven solver.\<close>

definition policy_error :: "error \<Rightarrow> bool" where
  "policy_error e \<longleftrightarrow>
     e = RecursionError \<or> e = ZeroDivisionError In_get_features \<or> (\<exists>x. e = OracleRaised x)"

text \<open>
  Two game objects belong to the same game configuration when the fields set by the
  constructor and never changed afterwards agree: the full deck, the bust threshold and, in
  the one-player class, the dealer limit (the only field of the record extension).
\<close>

definition same_configuration :: "'a BlackJack_scheme \<Rightarrow> 'a BlackJack_scheme \<Rightarrow> bool" where
  "same_configuration g g' \<longleftrightarrow>
     deck_copy g = deck_copy g' \<and> blackjack_num g = blackjack_num g' \<and>
     BlackJack.more g = BlackJack.more g'"

text \<open>
  Memo tables all of whose entries rate the optimal player at least as high as the random
  player against the same dealer.
\<close>

definition record_1p_monotone :: "record_1p \<Rightarrow> bool" where
  "record_1p_monotone r \<longleftrightarrow> (\<forall>k opt rnd. r k = Some (opt, rnd) \<longrightarrow> rnd \<le> opt)"

definition record_2p_monotone :: "record_2p \<Rightarrow> bool" where
  "record_2p_monotone r \<longleftrightarrow>
     (\<forall>k opod oprd rpod rprd. r k = Some (opod, oprd, rpod, rprd) \<longrightarrow>
        rpod \<le> opod \<and> rprd \<le> oprd)"

definition slots_monotone :: "real \<times> real \<times> real \<times> real \<Rightarrow> bool" where
  "slots_monotone v = (case v of (opod, oprd, rpod, rprd) \<Rightarrow> rpod \<le> opod \<and> rprd \<le> oprd)"


section \<open>Memo-free reading of the analytical solvers\<close>

text \<open>
  The values below are what the analytical solvers compute when nothing is cached: the
  same case analysis and the same combination rules, without the memo table and without a
  depth budget. They are used to say what a cached entry means; the solvers are compared
  with them in the properties. States whose turn is out of range get the value 0.
\<close>

definition card_share :: "'a BlackJack_scheme \<Rightarrow> int \<Rightarrow> real" where
  "card_share g c = real (count_list (deck g) c) / real (length (deck g))"

definition dealer_hit_state :: "'a BlackJack_scheme \<Rightarrow> int \<Rightarrow> 'a BlackJack_scheme" where
  "dealer_hit_state g c = g\<lparr>dealer_hand := dealer_hand g @ [c], deck := remove1 c (deck g)\<rparr>"

definition player_hit_state :: "'a BlackJack_scheme \<Rightarrow> int \<Rightarrow> 'a BlackJack_scheme" where
  "player_hit_state g c = g\<lparr>player_hand := player_hand g @ [c], deck := remove1 c (deck g)\<rparr>"

function value_1p :: "BlackJack1 \<Rightarrow> real \<times> real" where
  "value_1p g =
     (case snd (is_game_over_1p g) of
        Some result \<Rightarrow> (result, result)
      | None \<Rightarrow>
          if turn g = 1 then
            fold (\<lambda>c. acc2 (card_share g c) (value_1p (dealer_hit_state g c)))
              (np_unique (deck g)) (0, 0)
          else if turn g \<le> 0 then
            (let stay_value = value_1p (stay g);
                 hit_value = fold (\<lambda>c. acc2 (card_share g c) (value_1p (player_hit_state g c)))
                               (np_unique (deck g)) (0, 0)
             in (max (fst stay_value) (fst hit_value),
                 0.5 * snd stay_value + 0.5 * snd hit_value))
          else (0, 0))"
  by pat_completeness auto
termination
proof (relation "measure (\<lambda>g. length (deck g) + nat (1 - turn g))")
  show "wf (measure (\<lambda>g. length (deck g) + nat (1 - turn g)))" by simp
next
  fix g :: BlackJack1 and c
  assume "c \<in> set (np_unique (deck g))"
  then have "c \<in> set (deck g)" by (simp add: np_unique_def)
  then have "length (remove1 c (deck g)) < length (deck g)"
    using length_pos_if_in_set[of c "deck g"] by (simp add: length_remove1)
  then show "(dealer_hit_state g c, g) \<in> measure (\<lambda>g. length (deck g) + nat (1 - turn g))"
    by (simp add: dealer_hit_state_def)
next
  fix g :: BlackJack1
  assume "turn g \<le> 0"
  then show "(stay g, g) \<in> measure (\<lambda>g. length (deck g) + nat (1 - turn g))"
    by (simp add: stay_def)
next
  fix g :: BlackJack1 and c
  assume "c \<in> set (np_unique (deck g))"
  then have "c \<in> set (deck g)" by (simp add: np_unique_def)
  then have "length (remove1 c (deck g)) < length (deck g)"
    using length_pos_if_in_set[of c "deck g"] by (simp add: length_remove1)
  then show "(player_hit_state g c, g) \<in> measure (\<lambda>g. length (deck g) + nat (1 - turn g))"
    by (simp add: player_hit_state_def)
qed

function value_2p :: "BlackJack \<Rightarrow> real \<times> real \<times> real \<times> real" where
  "value_2p g =
     (case snd (is_game_over_2p g) of
        Some result \<Rightarrow> (result, result, result, result)
      | None \<Rightarrow>
          if turn g = 1 then
            (case (value_2p (stay g),
                   fold (\<lambda>c. acc4 (card_share g c) (value_2p (dealer_hit_state g c)))
                     (np_unique (deck g)) (0, 0, 0, 0)) of
               ((stay_opod, stay_oprd, stay_rpod, stay_rprd),
                (hit_opod, hit_oprd, hit_rpod, hit_rprd)) \<Rightarrow>
                 (min stay_opod hit_opod, 0.5 * stay_oprd + 0.5 * hit_oprd,
                  min stay_rpod hit_rpod, 0.5 * stay_rprd + 0.5 * hit_rprd))
          else if turn g \<le> 0 then
            (case (value_2p (stay g),
                   fold (\<lambda>c. acc4 (card_share g c) (value_2p (player_hit_state g c)))
                     (np_unique (deck g)) (0, 0, 0, 0)) of
               ((stay_opod, stay_oprd, stay_rpod, stay_rprd),
                (hit_opod, hit_oprd, hit_rpod, hit_rprd)) \<Rightarrow>
                 (max stay_opod hit_opod, max stay_oprd hit_oprd,
                  0.5 * stay_rpod + 0.5 * hit_rpod, 0.5 * stay_rprd + 0.5 * hit_rprd))
          else (0, 0, 0, 0))"
  by pat_completeness auto
termination
proof (relation "measure (\<lambda>g. length (deck g) + nat (2 - turn g))")
  show "wf (measure (\<lambda>g. length (deck g) + nat (2 - turn g)))" by simp
next
  fix g :: BlackJack
  assume "turn g = 1"
  then show "(stay g, g) \<in> measure (\<lambda>g. length (deck g) + nat (2 - turn g))"
    by (simp add: stay_def)
next
  fix g :: BlackJack and c
  assume "c \<in> set (np_unique (deck g))"
  then have "c \<in> set (deck g)" by (simp add: np_unique_def)
  then have "length (remove1 c (deck g)) < length (deck g)"
    using length_pos_if_in_set[of c "deck g"] by (simp add: length_remove1)
  then show "(dealer_hit_state g c, g) \<in> measure (\<lambda>g. length (deck g) + nat (2 - turn g))"
    by (simp add: dealer_hit_state_def)
next
  fix g :: BlackJack
  assume "turn g \<le> 0"
  then show "(stay g, g) \<in> measure (\<lambda>g. length (deck g) + nat (2 - turn g))"
    by (simp add: stay_def)
next
  fix g :: BlackJack and c
  assume "c \<in> set (np_unique (deck g))"
  then have "c \<in> set (deck g)" by (simp add: np_unique_def)
  then have "length (remove1 c (deck g)) < length (deck g)"
    using length_pos_if_in_set[of c "deck g"] by (simp add: length_remove1)
  then show "(player_hit_state g c, g) \<in> measure (\<lambda>g. length (deck g) + nat (2 - turn g))"
    by (simp add: player_hit_state_def)
qed

text \<open>Memo tables whose entries are the memo-free values of the states they stand for.\<close>

definition sound_1p :: "BlackJack1 \<Rightarrow> record_1p \<Rightarrow> bool" where
  "sound_1p g0 r \<longleftrightarrow>
     (\<forall>g v. same_configuration g g0 \<longrightarrow> turn g \<le> 1 \<longrightarrow>
        r (get_game_state_representation g) = Some v \<longrightarrow> v = value_1p g)"

definition sound_2p :: "BlackJack \<Rightarrow> record_2p \<Rightarrow> bool" where
  "sound_2p g0 r \<longleftrightarrow>
     (\<forall>g v. same_configuration g g0 \<longrightarrow> turn g \<le> 2 \<longrightarrow>
        r (get_game_state_representation g) = Some v \<longrightarrow> v = value_2p g)"

text \<open>
  The memo tables a solve can hold: the fresh table, and every table left by a call of the
  solver on a state of the configuration (turn in range) with such a table.
\<close>

inductive built_1p :: "BlackJack1 \<Rightarrow> record_1p \<Rightarrow> bool" for g0 where
  fresh_1p: "built_1p g0 Map.empty"
| call_1p: "built_1p g0 r \<Longrightarrow> same_configuration g g0 \<Longrightarrow> turn g \<le> 1 \<Longrightarrow>
     get_theoretical_win_probability_1p n g r = Inr (v, r') \<Longrightarrow> built_1p g0 r'"

inductive built_2p :: "BlackJack \<Rightarrow> record_2p \<Rightarrow> bool" for g0 where
  fresh_2p: "built_2p g0 Map.empty"
| call_2p: "built_2p g0 r \<Longrightarrow> same_configuration g g0 \<Longrightarrow> turn g \<le> 2 \<Longrightarrow>
     get_theoretical_win_probability_2p n g r = Inr (v, r') \<Longrightarrow> built_2p g0 r'"

text \<open>The four result slots of the two-player solver, under the names the source gives them.\<close>

definition opod :: "real \<times> real \<times> real \<times> real \<Rightarrow> real" where "opod v = fst v"
definition oprd :: "real \<times> real \<times> real \<times> real \<Rightarrow> real" where "oprd v = fst (snd v)"
definition rpod :: "real \<times> real \<times> real \<times> real \<Rightarrow> real" where "rpod v = fst (snd (snd v))"
definition rprd :: "real \<times> real \<times> real \<times> real \<Rightarrow> real" where "rprd v = snd (snd (snd v))"

text \<open>
  The value of a hit in one result slot: the sum over the distinct card values \<open>c\<close> left in
  the deck of (count of \<open>c\<close> in the deck / deck size) times the slot of the value \<open>vh c\<close> of
  the state after drawing \<open>c\<close>.
\<close>

definition hit_value :: "('v \<Rightarrow> real) \<Rightarrow> 'a BlackJack_scheme \<Rightarrow> (int \<Rightarrow> 'v) \<Rightarrow> real" where
  "hit_value slot g vh = (\<Sum>c\<leftarrow>np_unique (deck g). card_share g c * slot (vh c))"

section \<open>Policy-driven solver against the analytical solver (one-player variant)\<close>





section \<open>Properties\<close>

subsection \<open>Basic facts\<close>

lemma bind_e_simps [simp]:
  "bind_e (Inl e) f = Inl e"
  "bind_e (Inr x) f = f x"
  by (simp_all add: bind_e_def)

lemma bind_e_eq_Inl:
  "bind_e m f = Inl e \<longleftrightarrow> m = Inl e \<or> (\<exists>x. m = Inr x \<and> f x = Inl e)"
  by (cases m) simp_all

lemma bind_e_eq_Inr:
  "bind_e m f = Inr y \<longleftrightarrow> (\<exists>x. m = Inr x \<and> f x = Inr y)"
  by (cases m) simp_all

lemma set_np_unique [simp]: "set (np_unique xs) = set xs"
  by (simp add: np_unique_def)

lemma draw_prob_Inr:
  "c \<in> set (deck g) \<Longrightarrow>
   draw_prob g c = Inr (real (count_list (deck g) c) / real (length (deck g)))"
  by (auto simp: draw_prob_def)

lemma dealer_hit_Inr:
  "c \<in> set (deck g) \<Longrightarrow>
   dealer_hit g c = Inr (g\<lparr>dealer_hand := dealer_hand g @ [c], deck := remove1 c (deck g)\<rparr>)"
  by (simp add: dealer_hit_def list_remove_def)

lemma player_hit_Inr:
  "c \<in> set (deck g) \<Longrightarrow>
   player_hit g c = Inr (g\<lparr>player_hand := player_hand g @ [c], deck := remove1 c (deck g)\<rparr>)"
  by (simp add: player_hit_def list_remove_def)

lemma is_game_over_1p_result: "is_game_over_1p g \<noteq> (True, None)"
  by (simp add: is_game_over_1p_def)

lemma is_game_over_2p_result: "is_game_over_2p g \<noteq> (True, None)"
  by (simp add: is_game_over_2p_def)

lemma hit_loop_errors:
  assumes solve: "\<And>c s r e. c \<in> set cs \<Longrightarrow> hit g c = Inr s \<Longrightarrow> solve s r = Inl e \<Longrightarrow> P e"
    and cs: "set cs \<subseteq> set (deck g)"
    and hit: "hit = dealer_hit \<or> hit = player_hit"
    and res: "hit_loop acc hit solve g cs tot r = Inl e"
  shows "P e"
  using cs res solve
proof (induction cs arbitrary: tot r)
  case Nil
  then show ?case by simp
next
  case (Cons c cs)
  from Cons.prems(1) have c: "c \<in> set (deck g)" and cs': "set cs \<subseteq> set (deck g)"
    by simp_all
  obtain s where s: "hit g c = Inr s"
    using hit c dealer_hit_Inr player_hit_Inr by blast
  show ?case
  proof (cases "solve s r")
    case (Inl e')
    with Cons.prems(2) s c have "e = e'"
      by (simp add: draw_prob_Inr)
    with Inl s Cons.prems(3)[of c s r e'] show ?thesis by simp
  next
    case (Inr vr)
    obtain v r' where vr: "vr = (v, r')" by (cases vr)
    from Cons.prems(2) s c Inr vr
    have "hit_loop acc hit solve g cs
            (acc (real (count_list (deck g) c) / real (length (deck g))) v tot) r' = Inl e"
      by (simp add: draw_prob_Inr)
    then show ?thesis
      by (rule Cons.IH[OF cs']) (rule Cons.prems(3), simp_all)
  qed
qed

lemma hit_loop_Inr:
  assumes solve: "\<And>c s r. c \<in> set cs \<Longrightarrow> hit g c = Inr s \<Longrightarrow> \<exists>v r'. solve s r = Inr (v, r')"
    and cs: "set cs \<subseteq> set (deck g)"
    and hit: "hit = dealer_hit \<or> hit = player_hit"
  shows "\<exists>v r'. hit_loop acc hit solve g cs tot r = Inr (v, r')"
  using cs solve
proof (induction cs arbitrary: tot r)
  case Nil
  then show ?case by simp
next
  case (Cons c cs)
  from Cons.prems(1) have c: "c \<in> set (deck g)" and cs': "set cs \<subseteq> set (deck g)"
    by simp_all
  obtain s where s: "hit g c = Inr s"
    using hit c dealer_hit_Inr player_hit_Inr by blast
  from Cons.prems(2)[of c s r] s obtain v r' where v: "solve s r = Inr (v, r')"
    by auto
  have "\<exists>v' r''. hit_loop acc hit solve g cs
            (acc (real (count_list (deck g) c) / real (length (deck g))) v tot) r' = Inr (v', r'')"
    by (rule Cons.IH[OF cs']) (rule Cons.prems(2), simp_all)
  then show ?case
    using s v c by (simp add: draw_prob_Inr)
qed

lemma gtwp1_errors:
  "get_theoretical_win_probability_1p n g r = Inl e \<Longrightarrow> e = RecursionError"
proof (induction n arbitrary: g r e)
  case 0
  then show ?case by simp
next
  case (Suc n)
  have loop: "\<And>hit tot r' e'. hit = dealer_hit \<or> hit = player_hit \<Longrightarrow>
      hit_loop acc2 hit (get_theoretical_win_probability_1p n) g (np_unique (deck g)) tot r' = Inl e'
      \<Longrightarrow> e' = RecursionError"
    by (rule hit_loop_errors[where P="\<lambda>e. e = RecursionError"
          and solve="get_theoretical_win_probability_1p n" and g=g]) (use Suc.IH in auto)
  from Suc.prems show ?case
    using is_game_over_1p_result[of g]
    by (auto simp: bind_e_eq_Inl Let_def split: option.splits prod.splits bool.splits if_splits
          dest: loop[rotated] Suc.IH)
qed

lemma gtwp2_errors:
  "get_theoretical_win_probability_2p n g r = Inl e \<Longrightarrow> e = RecursionError"
proof (induction n arbitrary: g r e)
  case 0
  then show ?case by simp
next
  case (Suc n)
  have loop: "\<And>hit tot r' e'. hit = dealer_hit \<or> hit = player_hit \<Longrightarrow>
      hit_loop acc4 hit (get_theoretical_win_probability_2p n) g (np_unique (deck g)) tot r' = Inl e'
      \<Longrightarrow> e' = RecursionError"
    by (rule hit_loop_errors[where P="\<lambda>e. e = RecursionError"
          and solve="get_theoretical_win_probability_2p n" and g=g]) (use Suc.IH in auto)
  from Suc.prems show ?case
    using is_game_over_2p_result[of g]
    by (auto simp: bind_e_eq_Inl Let_def split: option.splits prod.splits bool.splits if_splits
          dest: loop[rotated] Suc.IH)
qed

lemma query_errors: "query agent g = Inl e \<Longrightarrow> policy_error e"
  by (auto simp: query_def get_features_def policy_error_def bind_e_eq_Inl
        split: if_splits sum.splits)

lemma gaiwp1_errors:
  "get_ai_win_probability_1p n agent g r = Inl e \<Longrightarrow> policy_error e"
proof (induction n arbitrary: g r e)
  case 0
  then show ?case by (simp add: policy_error_def)
next
  case (Suc n)
  have loop: "\<And>hit tot r' e'. hit = dealer_hit \<or> hit = player_hit \<Longrightarrow>
      hit_loop acc1 hit (get_ai_win_probability_1p n agent) g (np_unique (deck g)) tot r' = Inl e'
      \<Longrightarrow> policy_error e'"
    by (rule hit_loop_errors[where P=policy_error
          and solve="get_ai_win_probability_1p n agent" and g=g]) (use Suc.IH in auto)
  from Suc.prems show ?case
    using is_game_over_1p_result[of g]
    by (auto simp: bind_e_eq_Inl Let_def split: option.splits prod.splits bool.splits if_splits
          dest: loop[rotated] Suc.IH query_errors)
qed

lemma gaiwp2_errors:
  "get_ai_win_probability_2p n pa da g r = Inl e \<Longrightarrow> policy_error e"
proof (induction n arbitrary: g r e)
  case 0
  then show ?case by (simp add: policy_error_def)
next
  case (Suc n)
  have loop: "\<And>hit tot r' e'. hit = dealer_hit \<or> hit = player_hit \<Longrightarrow>
      hit_loop acc3 hit (get_ai_win_probability_2p n pa da) g (np_unique (deck g)) tot r' = Inl e'
      \<Longrightarrow> policy_error e'"
    by (rule hit_loop_errors[where P=policy_error
          and solve="get_ai_win_probability_2p n pa da" and g=g]) (use Suc.IH in auto)
  from Suc.prems show ?case
    using is_game_over_2p_result[of g]
    by (auto simp: bind_e_eq_Inl Let_def split: option.splits prod.splits bool.splits if_splits
          dest: loop[rotated] Suc.IH query_errors)
qed

subsection \<open>The hit loops never divide by zero\<close>

text \<open>
  Claim C9. In each of the four solvers (analytical and policy-driven, both variants), for
  every recursion depth, state and memo table, the \<open>ZeroDivisionError\<close> of \<open>draw_prob\<close> is
  never raised. The reason is local: \<open>draw_prob\<close> is only called for a card of
  \<open>np.unique(deck)\<close>, where the deck is not empty and the quotient is defined; and on a state
  with an empty deck the hit loop runs no iteration, so that it neither draws nor recurses.
\<close>

theorem draw_prob_never_divides_by_zero:
  "get_theoretical_win_probability_1p n g1 r1 \<noteq> Inl (ZeroDivisionError In_draw_prob) \<and>
   get_theoretical_win_probability_2p n g2 r2 \<noteq> Inl (ZeroDivisionError In_draw_prob) \<and>
   get_ai_win_probability_1p n agent g1 r3 \<noteq> Inl (ZeroDivisionError In_draw_prob) \<and>
   get_ai_win_probability_2p n player_agent dealer_agent g2 r4
     \<noteq> Inl (ZeroDivisionError In_draw_prob) \<and>
   (\<forall>c \<in> set (np_unique (deck g)).
      deck g \<noteq> [] \<and>
      draw_prob g c = Inr (real (count_list (deck g) c) / real (length (deck g)))) \<and>
   (deck g' = [] \<longrightarrow> hit_loop acc hit solve g' (np_unique (deck g')) tot r = Inr (tot, r))"
proof -
  have "get_theoretical_win_probability_1p n g1 r1 \<noteq> Inl (ZeroDivisionError In_draw_prob)"
    using gtwp1_errors by fastforce
  moreover have "get_theoretical_win_probability_2p n g2 r2 \<noteq> Inl (ZeroDivisionError In_draw_prob)"
    using gtwp2_errors by fastforce
  moreover have "get_ai_win_probability_1p n agent g1 r3 \<noteq> Inl (ZeroDivisionError In_draw_prob)"
    using gaiwp1_errors[of n agent g1 r3] by (auto simp: policy_error_def)
  moreover have "get_ai_win_probability_2p n player_agent dealer_agent g2 r4
      \<noteq> Inl (ZeroDivisionError In_draw_prob)"
    using gaiwp2_errors[of n player_agent dealer_agent g2 r4] by (auto simp: policy_error_def)
  moreover have "\<forall>c \<in> set (np_unique (deck g)). deck g \<noteq> [] \<and>
      draw_prob g c = Inr (real (count_list (deck g) c) / real (length (deck g)))"
    by (auto simp: draw_prob_Inr)
  moreover have "deck g' = [] \<longrightarrow>
      hit_loop acc hit solve g' (np_unique (deck g')) tot r = Inr (tot, r)"
    by (simp add: np_unique_def)
  ultimately show ?thesis by blast
qed

theorem draw_prob_never_divides_by_zero_witness:
  "draw_prob \<lparr>deck_copy = [1, 2, 2], blackjack_num = 8, deck = [1, 2, 2], dealer_hand = [],
      player_hand = [], turn = 0\<rparr> 2 = Inr (2 / 3) \<and>
   hit_loop acc1 player_hit (\<lambda>s r. Inl TypeError)
     \<lparr>deck_copy = [1, 2, 2], blackjack_num = 8, deck = [], dealer_hand = [1],
      player_hand = [2, 2], turn = 0\<rparr> (np_unique []) 0 (Map.empty :: state_key \<rightharpoonup> real)
     = Inr (0, Map.empty)"
  using draw_prob_never_divides_by_zero
    [of _ _ _ _ _ _ _ _ _ _
        "\<lparr>deck_copy = [1, 2, 2], blackjack_num = 8, deck = [1, 2, 2], dealer_hand = [],
          player_hand = [], turn = 0\<rparr>"
        "\<lparr>deck_copy = [1, 2, 2], blackjack_num = 8, deck = [], dealer_hand = [1],
          player_hand = [2, 2], turn = 0\<rparr>"
        acc1 player_hit "\<lambda>s r. Inl TypeError" 0 "Map.empty :: state_key \<rightharpoonup> real"]
  by (simp add: np_unique_def)

subsection \<open>Ties\<close>

text \<open>
  Claim C8. In the one-player variant, when the dealer limit is reached (dealer's turn, the
  dealer has not bust and its sum is at least \<open>dealer_limit\<close>) and both sums are equal,
  \<open>is_game_over\<close> returns \<open>(True, 0.0)\<close>. In the two-player variant, when the dealer has
  stayed (turn 2) and both sums are equal, \<open>is_game_over\<close> returns \<open>(True, 0.0)\<close>.
  A bust dealer ends the game as a dealer bust, which the code tests before the limit; with
  equal sums that would take a bust player, whose game is over before the dealer's turn.
\<close>

theorem tie_is_player_loss:
  "(turn g1 = 1 \<and> sum_list (dealer_hand g1) \<le> blackjack_num g1 \<and>
    dealer_limit g1 \<le> sum_list (dealer_hand g1) \<and>
    sum_list (player_hand g1) = sum_list (dealer_hand g1)
      \<longrightarrow> is_game_over_1p g1 = (True, Some 0)) \<and>
   (turn g2 = 2 \<and> sum_list (player_hand g2) = sum_list (dealer_hand g2)
      \<longrightarrow> is_game_over_2p g2 = (True, Some 0))"
  by (simp add: is_game_over_1p_def is_game_over_2p_def)

theorem tie_is_player_loss_witness:
  "is_game_over_1p \<lparr>deck_copy = [1, 2, 3, 4, 1, 2, 3, 4], blackjack_num = 8,
      deck = [1, 1, 2, 2], dealer_hand = [4, 3], player_hand = [3, 4], turn = 1,
      dealer_limit = 6\<rparr> = (True, Some 0) \<and>
   is_game_over_2p \<lparr>deck_copy = [1, 2, 3, 4, 1, 2, 3, 4], blackjack_num = 8,
      deck = [1, 1, 2, 2], dealer_hand = [4, 3], player_hand = [3, 4], turn = 2\<rparr>
     = (True, Some 0)"
  using tie_is_player_loss
    [of "\<lparr>deck_copy = [1, 2, 3, 4, 1, 2, 3, 4], blackjack_num = 8,
          deck = [1, 1, 2, 2], dealer_hand = [4, 3], player_hand = [3, 4], turn = 1,
          dealer_limit = 6\<rparr>"
        "\<lparr>deck_copy = [1, 2, 3, 4, 1, 2, 3, 4], blackjack_num = 8,
          deck = [1, 1, 2, 2], dealer_hand = [4, 3], player_hand = [3, 4], turn = 2\<rparr>"]
  by simp

lemma hit_state_facts:
  assumes "hit = dealer_hit \<or> hit = player_hit" and "hit g c = Inr s"
  shows "Suc (length (deck s)) = length (deck g)" and "turn s = turn g"
    and "blackjack_num s = blackjack_num g" and "deck_copy s = deck_copy g"
    and "BlackJack.more s = BlackJack.more g"
proof -
  from assms have c: "c \<in> set (deck g)"
    by (auto simp: dealer_hit_def player_hit_def list_remove_def split: if_splits)
  then have "0 < length (deck g)" by (rule length_pos_if_in_set)
  with c have "Suc (length (remove1 c (deck g))) = length (deck g)"
    by (simp add: length_remove1)
  with assms c show "Suc (length (deck s)) = length (deck g)"
    by (auto simp: dealer_hit_Inr player_hit_Inr)
  from assms c show "turn s = turn g" "blackjack_num s = blackjack_num g"
    "deck_copy s = deck_copy g" "BlackJack.more s = BlackJack.more g"
    by (auto simp: dealer_hit_Inr player_hit_Inr)
qed

lemma hit_state_dealer_limit:
  assumes "hit = dealer_hit \<or> hit = player_hit" and "hit g c = Inr s"
  shows "dealer_limit s = dealer_limit g"
  using assms
  by (auto simp: dealer_hit_def player_hit_def list_remove_def split: if_splits)

lemma stay_facts [simp]:
  "deck (stay g) = deck g" "turn (stay g) = turn g + 1"
  "dealer_hand (stay g) = dealer_hand g" "player_hand (stay g) = player_hand g"
  "blackjack_num (stay g) = blackjack_num g" "deck_copy (stay g) = deck_copy g"
  "BlackJack.more (stay g) = BlackJack.more g"
  by (simp_all add: stay_def)

lemma stay_dealer_limit [simp]: "dealer_limit (stay g) = dealer_limit g"
  by (simp add: stay_def)

lemma is_game_over_1p_cases:
  obtains (over) result where "is_game_over_1p g = (True, Some result)"
  | (running) "is_game_over_1p g = (False, None)"
proof -
  have "(\<exists>result. is_game_over_1p g = (True, Some result)) \<or> is_game_over_1p g = (False, None)"
    by (simp add: is_game_over_1p_def)
  then show ?thesis using that by blast
qed

lemma is_game_over_2p_cases:
  obtains (over) result where "is_game_over_2p g = (True, Some result)"
  | (running) "is_game_over_2p g = (False, None)"
proof -
  have "(\<exists>result. is_game_over_2p g = (True, Some result)) \<or> is_game_over_2p g = (False, None)"
    by (simp add: is_game_over_2p_def)
  then show ?thesis using that by blast
qed

lemma gtwp1_unfold:
  "r (get_game_state_representation g) = Some v \<Longrightarrow>
     get_theoretical_win_probability_1p (Suc n) g r = Inr (v, r)"
  "r (get_game_state_representation g) = None \<Longrightarrow>
   is_game_over_1p g = (True, Some result) \<Longrightarrow>
     get_theoretical_win_probability_1p (Suc n) g r = Inr ((result, result), r)"
  "r (get_game_state_representation g) = None \<Longrightarrow>
   is_game_over_1p g = (False, None) \<Longrightarrow> turn g = 1 \<Longrightarrow>
     get_theoretical_win_probability_1p (Suc n) g r =
       bind_e (hit_loop acc2 dealer_hit (get_theoretical_win_probability_1p n)
                 g (np_unique (deck g)) (0, 0) r)
         (\<lambda>(total, r'). Inr (total, r'(get_game_state_representation g \<mapsto> total)))"
  "r (get_game_state_representation g) = None \<Longrightarrow>
   is_game_over_1p g = (False, None) \<Longrightarrow> turn g \<noteq> 1 \<Longrightarrow>
     get_theoretical_win_probability_1p (Suc n) g r =
       bind_e (get_theoretical_win_probability_1p n (stay g) r)
         (\<lambda>((stay_optimal, stay_random), record1).
       bind_e (hit_loop acc2 player_hit (get_theoretical_win_probability_1p n)
                 g (np_unique (deck g)) (0, 0) record1)
         (\<lambda>((hit_optimal, hit_random), record2).
           Inr ((max stay_optimal hit_optimal, 0.5 * stay_random + 0.5 * hit_random),
                record2(get_game_state_representation g \<mapsto>
                  (max stay_optimal hit_optimal, 0.5 * stay_random + 0.5 * hit_random)))))"
  by (simp_all add: Let_def)

lemma gtwp2_unfold:
  "r (get_game_state_representation g) = Some v \<Longrightarrow>
     get_theoretical_win_probability_2p (Suc n) g r = Inr (v, r)"
  "r (get_game_state_representation g) = None \<Longrightarrow>
   is_game_over_2p g = (True, Some result) \<Longrightarrow>
     get_theoretical_win_probability_2p (Suc n) g r =
       Inr ((result, result, result, result), r)"
  "r (get_game_state_representation g) = None \<Longrightarrow>
   is_game_over_2p g = (False, None) \<Longrightarrow> turn g = 1 \<Longrightarrow>
     get_theoretical_win_probability_2p (Suc n) g r =
       bind_e (get_theoretical_win_probability_2p n (stay g) r)
         (\<lambda>((stay_opod, stay_oprd, stay_rpod, stay_rprd), record1).
       bind_e (hit_loop acc4 dealer_hit (get_theoretical_win_probability_2p n)
                 g (np_unique (deck g)) (0, 0, 0, 0) record1)
         (\<lambda>((hit_opod, hit_oprd, hit_rpod, hit_rprd), record2).
           Inr ((min stay_opod hit_opod, 0.5 * stay_oprd + 0.5 * hit_oprd,
                 min stay_rpod hit_rpod, 0.5 * stay_rprd + 0.5 * hit_rprd),
                record2(get_game_state_representation g \<mapsto>
                  (min stay_opod hit_opod, 0.5 * stay_oprd + 0.5 * hit_oprd,
                   min stay_rpod hit_rpod, 0.5 * stay_rprd + 0.5 * hit_rprd)))))"
  "r (get_game_state_representation g) = None \<Longrightarrow>
   is_game_over_2p g = (False, None) \<Longrightarrow> turn g \<noteq> 1 \<Longrightarrow>
     get_theoretical_win_probability_2p (Suc n) g r =
       bind_e (get_theoretical_win_probability_2p n (stay g) r)
         (\<lambda>((stay_opod, stay_oprd, stay_rpod, stay_rprd), record1).
       bind_e (hit_loop acc4 player_hit (get_theoretical_win_probability_2p n)
                 g (np_unique (deck g)) (0, 0, 0, 0) record1)
         (\<lambda>((hit_opod, hit_oprd, hit_rpod, hit_rprd), record2).
           Inr ((max stay_opod hit_opod, max stay_oprd hit_oprd,
                 0.5 * stay_rpod + 0.5 * hit_rpod, 0.5 * stay_rprd + 0.5 * hit_rprd),
                record2(get_game_state_representation g \<mapsto>
                  (max stay_opod hit_opod, max stay_oprd hit_oprd,
                   0.5 * stay_rpod + 0.5 * hit_rpod, 0.5 * stay_rprd + 0.5 * hit_rprd)))))"
  by (simp_all add: Let_def)

lemma gaiwp1_unfold:
  "r (get_game_state_representation g) = Some v \<Longrightarrow>
     get_ai_win_probability_1p (Suc n) agent g r = Inr (v, r)"
  "r (get_game_state_representation g) = None \<Longrightarrow>
   is_game_over_1p g = (True, Some result) \<Longrightarrow>
     get_ai_win_probability_1p (Suc n) agent g r = Inr (result, r)"
  "r (get_game_state_representation g) = None \<Longrightarrow>
   is_game_over_1p g = (False, None) \<Longrightarrow> turn g = 1 \<Longrightarrow>
     get_ai_win_probability_1p (Suc n) agent g r =
       bind_e (hit_loop acc1 dealer_hit (get_ai_win_probability_1p n agent)
                 g (np_unique (deck g)) 0 r)
         (\<lambda>(total, r'). Inr (total, r'(get_game_state_representation g \<mapsto> total)))"
  "r (get_game_state_representation g) = None \<Longrightarrow>
   is_game_over_1p g = (False, None) \<Longrightarrow> turn g \<noteq> 1 \<Longrightarrow>
     get_ai_win_probability_1p (Suc n) agent g r =
       bind_e (bind_e (query agent g) (\<lambda>action_index.
                 if action_index = 0 then get_ai_win_probability_1p n agent (stay g) r
                 else hit_loop acc1 player_hit (get_ai_win_probability_1p n agent)
                        g (np_unique (deck g)) 0 r))
         (\<lambda>(total, r'). Inr (total, r'(get_game_state_representation g \<mapsto> total)))"
  by simp_all

lemma gaiwp2_unfold:
  "r (get_game_state_representation g) = Some v \<Longrightarrow>
     get_ai_win_probability_2p (Suc n) pa da g r = Inr (v, r)"
  "r (get_game_state_representation g) = None \<Longrightarrow>
   is_game_over_2p g = (True, Some result) \<Longrightarrow>
     get_ai_win_probability_2p (Suc n) pa da g r = Inr ((result, result, result), r)"
  "r (get_game_state_representation g) = None \<Longrightarrow>
   is_game_over_2p g = (False, None) \<Longrightarrow> turn g = 1 \<Longrightarrow>
     get_ai_win_probability_2p (Suc n) pa da g r =
       bind_e (query da g) (\<lambda>action_index.
       bind_e (get_ai_win_probability_2p n pa da (stay g) r)
         (\<lambda>((stay_apad, stay_aprd, stay_rpad), record1).
       bind_e (hit_loop acc3 dealer_hit (get_ai_win_probability_2p n pa da)
                 g (np_unique (deck g)) (0, 0, 0) record1)
         (\<lambda>((hit_apad, hit_aprd, hit_rpad), record2).
           Inr ((if action_index = 0
                 then (stay_apad, 0.5 * stay_aprd + 0.5 * hit_aprd, stay_rpad)
                 else (hit_apad, 0.5 * stay_aprd + 0.5 * hit_aprd, hit_rpad)),
                record2(get_game_state_representation g \<mapsto>
                  (if action_index = 0
                   then (stay_apad, 0.5 * stay_aprd + 0.5 * hit_aprd, stay_rpad)
                   else (hit_apad, 0.5 * stay_aprd + 0.5 * hit_aprd, hit_rpad)))))))"
  "r (get_game_state_representation g) = None \<Longrightarrow>
   is_game_over_2p g = (False, None) \<Longrightarrow> turn g \<noteq> 1 \<Longrightarrow>
     get_ai_win_probability_2p (Suc n) pa da g r =
       bind_e (query pa g) (\<lambda>action_index.
       bind_e (get_ai_win_probability_2p n pa da (stay g) r)
         (\<lambda>((stay_apad, stay_aprd, stay_rpad), record1).
       bind_e (hit_loop acc3 player_hit (get_ai_win_probability_2p n pa da)
                 g (np_unique (deck g)) (0, 0, 0) record1)
         (\<lambda>((hit_apad, hit_aprd, hit_rpad), record2).
           Inr ((if action_index = 0
                 then (stay_apad, stay_aprd, 0.5 * stay_rpad + 0.5 * hit_rpad)
                 else (hit_apad, hit_aprd, 0.5 * stay_rpad + 0.5 * hit_rpad)),
                record2(get_game_state_representation g \<mapsto>
                  (if action_index = 0
                   then (stay_apad, stay_aprd, 0.5 * stay_rpad + 0.5 * hit_rpad)
                   else (hit_apad, hit_aprd, 0.5 * stay_rpad + 0.5 * hit_rpad)))))))"
  by (simp_all add: Let_def)

subsection \<open>One step of each solver\<close>

declare get_theoretical_win_probability_1p.simps(2) [simp del]
declare get_theoretical_win_probability_2p.simps(2) [simp del]
declare get_ai_win_probability_1p.simps(2) [simp del]
declare get_ai_win_probability_2p.simps(2) [simp del]

lemma gtwp1_returns:
  "turn g \<le> 1 \<Longrightarrow> length (deck g) + nat (1 - turn g) < n \<Longrightarrow>
   \<exists>v r'. get_theoretical_win_probability_1p n g r = Inr (v, r')"
proof (induction n arbitrary: g r)
  case 0
  then show ?case by simp
next
  case (Suc n)
  have loop: "\<exists>v r''. hit_loop acc2 hit (get_theoretical_win_probability_1p n) g
                (np_unique (deck g)) tot r' = Inr (v, r'')"
    if hit: "hit = dealer_hit \<or> hit = player_hit" for hit tot and r' :: record_1p
  proof (rule hit_loop_Inr)
    fix c s r''
    assume "c \<in> set (np_unique (deck g))" and s: "hit g c = Inr s"
    from hit_state_facts(1,2)[OF hit s] Suc.prems
    have "turn s \<le> 1" "length (deck s) + nat (1 - turn s) < n" by auto
    then show "\<exists>v r'. get_theoretical_win_probability_1p n s r'' = Inr (v, r')"
      by (rule Suc.IH)
  qed (simp_all add: hit)
  show ?case
  proof (cases "r (get_game_state_representation g)")
    case (Some v)
    then show ?thesis by (simp add: gtwp1_unfold)
  next
    case None
    show ?thesis
    proof (cases g rule: is_game_over_1p_cases)
      case (over result)
      with None show ?thesis by (simp add: gtwp1_unfold)
    next
      case running
      show ?thesis
      proof (cases "turn g = 1")
        case True
        obtain v r' where "hit_loop acc2 dealer_hit (get_theoretical_win_probability_1p n) g
                    (np_unique (deck g)) (0, 0) r = Inr (v, r')"
          using loop[of dealer_hit] by blast
        with True None running show ?thesis
          by (simp add: gtwp1_unfold)
      next
        case False
        with Suc.prems have "turn (stay g) \<le> 1"
          "length (deck (stay g)) + nat (1 - turn (stay g)) < n"
          by auto
        from Suc.IH[OF this] obtain so sr r1 where
          st: "get_theoretical_win_probability_1p n (stay g) r = Inr ((so, sr), r1)"
          by fastforce
        obtain ho hr r2 where "hit_loop acc2 player_hit (get_theoretical_win_probability_1p n) g
                    (np_unique (deck g)) (0, 0) r1 = Inr ((ho, hr), r2)"
          using loop[of player_hit "(0, 0)" r1] by fastforce
        with False st None running show ?thesis
          by (simp add: gtwp1_unfold)
      qed
    qed
  qed
qed

lemma gtwp2_returns:
  "turn g \<le> 2 \<Longrightarrow> length (deck g) + nat (2 - turn g) < n \<Longrightarrow>
   \<exists>v r'. get_theoretical_win_probability_2p n g r = Inr (v, r')"
proof (induction n arbitrary: g r)
  case 0
  then show ?case by simp
next
  case (Suc n)
  have loop: "\<exists>v r''. hit_loop acc4 hit (get_theoretical_win_probability_2p n) g
                (np_unique (deck g)) tot r' = Inr (v, r'')"
    if hit: "hit = dealer_hit \<or> hit = player_hit" and t: "turn g \<noteq> 2"
    for hit tot and r' :: record_2p
  proof (rule hit_loop_Inr)
    fix c s r''
    assume "c \<in> set (np_unique (deck g))" and s: "hit g c = Inr s"
    from hit_state_facts(1,2)[OF hit s] Suc.prems
    have "turn s \<le> 2" "length (deck s) + nat (2 - turn s) < n" by auto
    then show "\<exists>v r'. get_theoretical_win_probability_2p n s r'' = Inr (v, r')"
      by (rule Suc.IH)
  qed (simp_all add: hit)
  show ?case
  proof (cases "r (get_game_state_representation g)")
    case (Some v)
    then show ?thesis using gtwp2_unfold(1)[of r g v n] by blast
  next
    case None
    show ?thesis
    proof (cases g rule: is_game_over_2p_cases)
      case (over result)
      with None show ?thesis by (simp add: gtwp2_unfold)
    next
      case running
      then have t: "turn g \<noteq> 2"
        by (auto simp: is_game_over_2p_def split: if_splits)
      with Suc.prems have "turn (stay g) \<le> 2"
        "length (deck (stay g)) + nat (2 - turn (stay g)) < n"
        by auto
      from Suc.IH[OF this] obtain s1 s2 s3 s4 r1 where
        st: "get_theoretical_win_probability_2p n (stay g) r = Inr ((s1, s2, s3, s4), r1)"
        by fastforce
      show ?thesis
      proof (cases "turn g = 1")
        case True
        obtain h1 h2 h3 h4 r2 where
          "hit_loop acc4 dealer_hit (get_theoretical_win_probability_2p n) g
             (np_unique (deck g)) (0, 0, 0, 0) r1 = Inr ((h1, h2, h3, h4), r2)"
          using loop[of dealer_hit "(0, 0, 0, 0)" r1] t by fastforce
        with True st None running show ?thesis
          by (simp add: gtwp2_unfold)
      next
        case False
        obtain h1 h2 h3 h4 r2 where
          "hit_loop acc4 player_hit (get_theoretical_win_probability_2p n) g
             (np_unique (deck g)) (0, 0, 0, 0) r1 = Inr ((h1, h2, h3, h4), r2)"
          using loop[of player_hit "(0, 0, 0, 0)" r1] t by fastforce
        with False st None running show ?thesis
          by (simp add: gtwp2_unfold)
      qed
    qed
  qed
qed

subsection \<open>Termination within the recursion depth\<close>

lemma query_no_recursion_error: "query agent g \<noteq> Inl RecursionError"
  by (auto simp: query_def get_features_def bind_e_eq_Inl split: if_splits sum.splits)

lemma gaiwp1_no_recursion_error:
  "turn g \<le> 1 \<Longrightarrow> length (deck g) + nat (1 - turn g) < n \<Longrightarrow>
   get_ai_win_probability_1p n agent g r \<noteq> Inl RecursionError"
proof (induction n arbitrary: g r)
  case 0
  then show ?case by simp
next
  case (Suc n)
  have loop: "hit_loop acc1 hit (get_ai_win_probability_1p n agent) g
                (np_unique (deck g)) tot r' \<noteq> Inl RecursionError"
    if hit: "hit = dealer_hit \<or> hit = player_hit" for hit tot and r' :: record_ai_1p
  proof
    assume "hit_loop acc1 hit (get_ai_win_probability_1p n agent) g
                (np_unique (deck g)) tot r' = Inl RecursionError"
    then have "RecursionError \<noteq> RecursionError"
    proof (rule hit_loop_errors[where P="\<lambda>e. e \<noteq> RecursionError", rotated 3])
      fix c s r'' e
      assume "c \<in> set (np_unique (deck g))" and s: "hit g c = Inr s"
        and e: "get_ai_win_probability_1p n agent s r'' = Inl e"
      from hit_state_facts(1,2)[OF hit s] Suc.prems
      have "turn s \<le> 1" "length (deck s) + nat (1 - turn s) < n" by auto
      from Suc.IH[OF this] e show "e \<noteq> RecursionError" by auto
    qed (simp_all add: hit)
    then show False by simp
  qed
  show ?case
  proof (cases "r (get_game_state_representation g)")
    case (Some v)
    then show ?thesis by (simp add: gaiwp1_unfold)
  next
    case None
    show ?thesis
    proof (cases g rule: is_game_over_1p_cases)
      case (over result)
      with None show ?thesis by (simp add: gaiwp1_unfold)
    next
      case running
      show ?thesis
      proof (cases "turn g = 1")
        case True
        with None running loop[of dealer_hit 0 r] show ?thesis
          by (auto simp: gaiwp1_unfold bind_e_eq_Inl)
      next
        case False
        with Suc.prems have "turn (stay g) \<le> 1"
          "length (deck (stay g)) + nat (1 - turn (stay g)) < n"
          by auto
        from Suc.IH[OF this]
        have "get_ai_win_probability_1p n agent (stay g) r \<noteq> Inl RecursionError" .
        with False None running loop[of player_hit 0 r] query_no_recursion_error[of agent g]
        show ?thesis
          by (auto simp: gaiwp1_unfold bind_e_eq_Inl split: if_splits)
      qed
    qed
  qed
qed

lemma gaiwp2_no_recursion_error:
  "turn g \<le> 2 \<Longrightarrow> length (deck g) + nat (2 - turn g) < n \<Longrightarrow>
   get_ai_win_probability_2p n pa da g r \<noteq> Inl RecursionError"
proof (induction n arbitrary: g r)
  case 0
  then show ?case by simp
next
  case (Suc n)
  have loop: "hit_loop acc3 hit (get_ai_win_probability_2p n pa da) g
                (np_unique (deck g)) tot r' \<noteq> Inl RecursionError"
    if hit: "hit = dealer_hit \<or> hit = player_hit" and t: "turn g \<noteq> 2"
    for hit tot and r' :: record_ai_2p
  proof
    assume "hit_loop acc3 hit (get_ai_win_probability_2p n pa da) g
                (np_unique (deck g)) tot r' = Inl RecursionError"
    then have "RecursionError \<noteq> RecursionError"
    proof (rule hit_loop_errors[where P="\<lambda>e. e \<noteq> RecursionError", rotated 3])
      fix c s r'' e
      assume "c \<in> set (np_unique (deck g))" and s: "hit g c = Inr s"
        and e: "get_ai_win_probability_2p n pa da s r'' = Inl e"
      from hit_state_facts(1,2)[OF hit s] Suc.prems
      have "turn s \<le> 2" "length (deck s) + nat (2 - turn s) < n" by auto
      from Suc.IH[OF this] e show "e \<noteq> RecursionError" by auto
    qed (simp_all add: hit)
    then show False by simp
  qed
  show ?case
  proof (cases "r (get_game_state_representation g)")
    case (Some v)
    then show ?thesis by (simp add: gaiwp2_unfold)
  next
    case None
    show ?thesis
    proof (cases g rule: is_game_over_2p_cases)
      case (over result)
      with None show ?thesis by (simp add: gaiwp2_unfold)
    next
      case running
      then have t: "turn g \<noteq> 2"
        by (auto simp: is_game_over_2p_def split: if_splits)
      with Suc.prems have "turn (stay g) \<le> 2"
        "length (deck (stay g)) + nat (2 - turn (stay g)) < n"
        by auto
      from Suc.IH[OF this]
      have st: "get_ai_win_probability_2p n pa da (stay g) r \<noteq> Inl RecursionError" .
      show ?thesis
      proof (cases "turn g = 1")
        case True
        with None running st t loop[of dealer_hit] query_no_recursion_error[of da g]
        show ?thesis
          by (auto simp: gaiwp2_unfold bind_e_eq_Inl split: if_splits)
      next
        case False
        with None running st t loop[of player_hit] query_no_recursion_error[of pa g]
        show ?thesis
          by (auto simp: gaiwp2_unfold bind_e_eq_Inl split: if_splits)
      qed
    qed
  qed
qed

text \<open>
  Claim C10. In the one-player variant, on a state whose turn is at most 1 (player 0,
  dealer 1), a recursion depth above the deck size plus the turn advances left suffices:
  the analytical solver returns a result and the policy-driven solver does not run out of
  depth (it returns, or stops with an exception of the feature vector or of the agent).
  The same holds in the two-player variant for turns up to 2 (dealer stayed). Every recursive
  call is on a hit state (one card fewer in the deck, same turn) or on the stay state (same
  deck, turn advanced by one).
\<close>

theorem solvers_terminate:
  "(turn g1 \<le> 1 \<and> length (deck g1) + nat (1 - turn g1) < n \<longrightarrow>
      (\<exists>v r'. get_theoretical_win_probability_1p n g1 r1 = Inr (v, r')) \<and>
      get_ai_win_probability_1p n agent g1 r3 \<noteq> Inl RecursionError) \<and>
   (turn g2 \<le> 2 \<and> length (deck g2) + nat (2 - turn g2) < n \<longrightarrow>
      (\<exists>v r'. get_theoretical_win_probability_2p n g2 r2 = Inr (v, r')) \<and>
      get_ai_win_probability_2p n player_agent dealer_agent g2 r4 \<noteq> Inl RecursionError) \<and>
   (\<forall>c \<in> set (np_unique (deck g)).
      (\<exists>s. player_hit g c = Inr s \<and> Suc (length (deck s)) = length (deck g) \<and> turn s = turn g) \<and>
      (\<exists>s. dealer_hit g c = Inr s \<and> Suc (length (deck s)) = length (deck g) \<and> turn s = turn g)) \<and>
   deck (stay g) = deck g \<and> turn (stay g) = turn g + 1"
proof -
  have "\<exists>s. hit g c = Inr s \<and> Suc (length (deck s)) = length (deck g) \<and> turn s = turn g"
    if c: "c \<in> set (deck g)" and hit: "hit = dealer_hit \<or> hit = player_hit" for c hit
  proof -
    obtain s where s: "hit g c = Inr s"
      using c hit dealer_hit_Inr[of c g] player_hit_Inr[of c g] by auto
    with hit_state_facts(1,2)[OF hit s] show ?thesis by simp
  qed
  then show ?thesis
    using gtwp1_returns[of g1 n r1] gaiwp1_no_recursion_error[of g1 n agent r3]
      gtwp2_returns[of g2 n r2] gaiwp2_no_recursion_error[of g2 n player_agent dealer_agent r4]
    by simp
qed

theorem solvers_terminate_witness:
  "(\<exists>v r'. get_theoretical_win_probability_1p 5
      \<lparr>deck_copy = [1, 2, 3, 4, 4], blackjack_num = 8, deck = [2, 3], dealer_hand = [4],
       player_hand = [1, 4], turn = 0, dealer_limit = 6\<rparr> Map.empty = Inr (v, r')) \<and>
   get_ai_win_probability_1p 5 (\<lambda>features. Inr 0)
      \<lparr>deck_copy = [1, 2, 3, 4, 4], blackjack_num = 8, deck = [2, 3], dealer_hand = [4],
       player_hand = [1, 4], turn = 0, dealer_limit = 6\<rparr> Map.empty \<noteq> Inl RecursionError \<and>
   (\<exists>v r'. get_theoretical_win_probability_2p 5
      \<lparr>deck_copy = [1, 2, 3, 4, 4], blackjack_num = 8, deck = [2, 3], dealer_hand = [4],
       player_hand = [1, 4], turn = 0\<rparr> Map.empty = Inr (v, r')) \<and>
   get_ai_win_probability_2p 5 (\<lambda>features. Inr 0) (\<lambda>features. Inr 1)
      \<lparr>deck_copy = [1, 2, 3, 4, 4], blackjack_num = 8, deck = [2, 3], dealer_hand = [4],
       player_hand = [1, 4], turn = 0\<rparr> Map.empty \<noteq> Inl RecursionError \<and>
   (\<exists>s. player_hit \<lparr>deck_copy = [1, 2, 3, 4, 4], blackjack_num = 8, deck = [2, 3],
            dealer_hand = [4], player_hand = [1, 4], turn = 0\<rparr> 3 = Inr s \<and>
        Suc (length (deck s)) = 2 \<and> turn s = 0)"
  using solvers_terminate
    [of "\<lparr>deck_copy = [1, 2, 3, 4, 4], blackjack_num = 8, deck = [2, 3], dealer_hand = [4],
          player_hand = [1, 4], turn = 0, dealer_limit = 6\<rparr>"
        5 Map.empty "\<lambda>features. Inr 0" Map.empty
        "\<lparr>deck_copy = [1, 2, 3, 4, 4], blackjack_num = 8, deck = [2, 3], dealer_hand = [4],
          player_hand = [1, 4], turn = 0\<rparr>"
        Map.empty "\<lambda>features. Inr 0" "\<lambda>features. Inr 1" Map.empty
        "\<lparr>deck_copy = [1, 2, 3, 4, 4], blackjack_num = 8, deck = [2, 3], dealer_hand = [4],
          player_hand = [1, 4], turn = 0\<rparr>"]
  by (simp add: np_unique_def)

subsection \<open>States with the same canonical key\<close>

lemma sort_eq_iff_mset: "sort xs = sort ys \<longleftrightarrow> mset xs = mset ys"
proof
  assume "sort xs = sort ys"
  then have "mset (sort xs) = mset (sort ys)" by simp
  then show "mset xs = mset ys" by simp
next
  assume "mset xs = mset ys"
  then show "sort xs = sort ys"
    by (metis properties_for_sort mset_sort sorted_sort)
qed

lemma key_eq_iff:
  "get_game_state_representation g = get_game_state_representation g' \<longleftrightarrow>
     sum_list (dealer_hand g) = sum_list (dealer_hand g') \<and>
     sum_list (player_hand g) = sum_list (player_hand g') \<and>
     mset (deck g) = mset (deck g') \<and> turn g = turn g'"
  by (simp add: get_game_state_representation_def sort_eq_iff_mset)

lemma mset_eq_facts:
  assumes "mset xs = mset ys"
  shows "set xs = set ys" "length xs = length ys" "count_list xs c = count_list ys c"
    "np_unique xs = np_unique ys"
proof -
  show s: "set xs = set ys" using assms by (rule mset_eq_setD)
  show "length xs = length ys" using assms by (rule mset_eq_length)
  show "count_list xs c = count_list ys c"
    using assms by (metis count_mset)
  show "np_unique xs = np_unique ys"
    using s by (simp add: np_unique_def flip: sorted_list_of_set_sort_remdups)
qed

lemma same_key_draw_prob:
  "get_game_state_representation g = get_game_state_representation g' \<Longrightarrow>
   draw_prob g c = draw_prob g' c"
  using mset_eq_facts(2,3)[of "deck g" "deck g'"]
  by (simp add: key_eq_iff draw_prob_def)

lemma same_key_get_features:
  "get_game_state_representation g = get_game_state_representation g' \<Longrightarrow>
   same_configuration g g' \<Longrightarrow> get_features g = get_features g'"
  using mset_eq_facts(2,3)[of "deck g" "deck g'"]
  by (simp add: key_eq_iff get_features_def same_configuration_def)

lemma same_configuration_1p:
  fixes g g' :: BlackJack1
  shows "same_configuration g g' \<longleftrightarrow>
     deck_copy g = deck_copy g' \<and> blackjack_num g = blackjack_num g' \<and>
     dealer_limit g = dealer_limit g'"
  by (cases g, cases g') (simp add: same_configuration_def)

lemma same_configuration_2p:
  fixes g g' :: BlackJack
  shows "same_configuration g g' \<longleftrightarrow>
     deck_copy g = deck_copy g' \<and> blackjack_num g = blackjack_num g'"
  by (simp add: same_configuration_def)

lemma same_key_is_game_over_1p:
  "get_game_state_representation g = get_game_state_representation g' \<Longrightarrow>
   same_configuration g g' \<Longrightarrow> is_game_over_1p g = is_game_over_1p g'"
  by (simp add: key_eq_iff is_game_over_1p_def same_configuration_1p)

lemma same_key_is_game_over_2p:
  "get_game_state_representation g = get_game_state_representation g' \<Longrightarrow>
   same_configuration g g' \<Longrightarrow> is_game_over_2p g = is_game_over_2p g'"
  by (simp add: key_eq_iff is_game_over_2p_def same_configuration_def)

lemma same_key_stay:
  "get_game_state_representation g = get_game_state_representation g' \<Longrightarrow>
   same_configuration g g' \<Longrightarrow>
   get_game_state_representation (stay g) = get_game_state_representation (stay g') \<and>
   same_configuration (stay g) (stay g')"
  by (simp add: key_eq_iff same_configuration_def)

lemma same_key_hit:
  assumes key: "get_game_state_representation g = get_game_state_representation g'"
    and cfg: "same_configuration g g'"
    and hit: "hit = dealer_hit \<or> hit = player_hit"
    and c: "c \<in> set (deck g)"
  shows "\<exists>s s'. hit g c = Inr s \<and> hit g' c = Inr s' \<and>
           get_game_state_representation s = get_game_state_representation s' \<and>
           same_configuration s s'"
proof -
  from key have m: "mset (deck g) = mset (deck g')" by (simp add: key_eq_iff)
  with c have c': "c \<in> set (deck g')" using mset_eq_setD by blast
  from m have "mset (remove1 c (deck g)) = mset (remove1 c (deck g'))" by simp
  with key cfg hit c c' show ?thesis
    by (auto simp: dealer_hit_Inr player_hit_Inr key_eq_iff same_configuration_def)
qed

lemma hit_loop_same_key:
  assumes solve: "\<And>c s s' r. c \<in> set cs \<Longrightarrow> hit g c = Inr s \<Longrightarrow> hit g' c = Inr s' \<Longrightarrow>
      solve s r = solve s' r"
    and key: "get_game_state_representation g = get_game_state_representation g'"
    and cfg: "same_configuration g g'"
    and cs: "set cs \<subseteq> set (deck g)"
    and hit: "hit = dealer_hit \<or> hit = player_hit"
  shows "hit_loop acc hit solve g cs tot r = hit_loop acc hit solve g' cs tot r"
  using cs solve
proof (induction cs arbitrary: tot r)
  case Nil
  then show ?case by simp
next
  case (Cons c cs)
  from Cons.prems(1) have c: "c \<in> set (deck g)" and cs': "set cs \<subseteq> set (deck g)"
    by simp_all
  from same_key_hit[OF key cfg hit c] obtain s s' where
    s: "hit g c = Inr s" "hit g' c = Inr s'" by blast
  have eq: "solve s r = solve s' r"
    using Cons.prems(2)[of c s s' r] s by simp
  have IH: "hit_loop acc hit solve g cs tot' r' = hit_loop acc hit solve g' cs tot' r'"
    for tot' r'
    by (rule Cons.IH[OF cs']) (rule Cons.prems(2), simp_all)
  show ?case
    by (simp add: s eq IH same_key_draw_prob[OF key])
qed

lemma same_key_np_unique:
  "get_game_state_representation g = get_game_state_representation g' \<Longrightarrow>
   np_unique (deck g) = np_unique (deck g')"
  using mset_eq_facts(4)[of "deck g" "deck g'"] by (simp add: key_eq_iff)

lemma same_key_turn:
  "get_game_state_representation g = get_game_state_representation g' \<Longrightarrow> turn g = turn g'"
  by (simp add: key_eq_iff)

lemma same_key_query:
  "get_game_state_representation g = get_game_state_representation g' \<Longrightarrow>
   same_configuration g g' \<Longrightarrow> query agent g = query agent g'"
  by (simp add: query_def same_key_get_features)

lemma gtwp1_same_key:
  "get_game_state_representation g = get_game_state_representation g' \<Longrightarrow>
   same_configuration g g' \<Longrightarrow>
   get_theoretical_win_probability_1p n g r = get_theoretical_win_probability_1p n g' r"
proof (induction n arbitrary: g g' r)
  case 0
  then show ?case by simp
next
  case (Suc n)
  note key = Suc.prems(1) and cfg = Suc.prems(2)
  have loop: "hit_loop acc2 hit (get_theoretical_win_probability_1p n ) g
                (np_unique (deck g)) tot r' =
              hit_loop acc2 hit (get_theoretical_win_probability_1p n ) g'
                (np_unique (deck g')) tot r'"
    if hit: "hit = dealer_hit \<or> hit = player_hit" for hit tot and r' :: record_1p
    unfolding same_key_np_unique[OF key, symmetric]
  proof (rule hit_loop_same_key[OF _ key cfg _ hit])
    fix c s s' r''
    assume c: "c \<in> set (np_unique (deck g))" and "hit g c = Inr s" "hit g' c = Inr s'"
    with same_key_hit[OF key cfg hit, of c]
    show "get_theoretical_win_probability_1p n s r'' =
          get_theoretical_win_probability_1p n s' r''"
      by (auto intro: Suc.IH)
  qed simp
  have st: "get_theoretical_win_probability_1p n (stay g) r' =
            get_theoretical_win_probability_1p n (stay g') r'" for r'
    using same_key_stay[OF key cfg] by (auto intro: Suc.IH)
  have go: "is_game_over_1p g' = is_game_over_1p g"
    by (rule same_key_is_game_over_1p[OF key cfg, symmetric])
  have t: "turn g' = turn g"
    by (rule same_key_turn[OF key, symmetric])
  have q: "query agent' g' = query agent' g" for agent'
    by (rule same_key_query[OF key cfg, symmetric])
  show ?case
  proof (cases "r (get_game_state_representation g)")
    case (Some v)
    then have "r (get_game_state_representation g') = Some v" using key by simp
    with Some show ?thesis
      using gtwp1_unfold(1)[where g=g and r=r and n=n and v=v]
        gtwp1_unfold(1)[where g=g' and r=r and n=n and v=v] by simp
  next
    case None
    then have None': "r (get_game_state_representation g') = None" using key by simp
    show ?thesis
    proof (cases g rule: is_game_over_1p_cases)
      case (over result)
      then have "is_game_over_1p g' = (True, Some result)" using go by simp
      with over None None' show ?thesis
        using gtwp1_unfold(2)[where g=g and r=r and n=n and result=result]
          gtwp1_unfold(2)[where g=g' and r=r and n=n and result=result] by simp
    next
      case running
      then have running': "is_game_over_1p g' = (False, None)" using go by simp
      show ?thesis
      proof (cases "turn g = 1")
        case True
        then have "turn g' = 1" using t by simp
        with True running running' None None' show ?thesis
          using gtwp1_unfold(3)[where g=g and r=r and n=n]
            gtwp1_unfold(3)[where g=g' and r=r and n=n]
          by (simp add: loop st q key cong: if_cong)
      next
        case False
        then have "turn g' \<noteq> 1" using t by simp
        with False running running' None None' show ?thesis
          using gtwp1_unfold(4)[where g=g and r=r and n=n]
            gtwp1_unfold(4)[where g=g' and r=r and n=n]
          by (simp add: loop st q key cong: if_cong)
      qed
    qed
  qed
qed

lemma gtwp2_same_key:
  "get_game_state_representation g = get_game_state_representation g' \<Longrightarrow>
   same_configuration g g' \<Longrightarrow>
   get_theoretical_win_probability_2p n g r = get_theoretical_win_probability_2p n g' r"
proof (induction n arbitrary: g g' r)
  case 0
  then show ?case by simp
next
  case (Suc n)
  note key = Suc.prems(1) and cfg = Suc.prems(2)
  have loop: "hit_loop acc4 hit (get_theoretical_win_probability_2p n ) g
                (np_unique (deck g)) tot r' =
              hit_loop acc4 hit (get_theoretical_win_probability_2p n ) g'
                (np_unique (deck g')) tot r'"
    if hit: "hit = dealer_hit \<or> hit = player_hit" for hit tot and r' :: record_2p
    unfolding same_key_np_unique[OF key, symmetric]
  proof (rule hit_loop_same_key[OF _ key cfg _ hit])
    fix c s s' r''
    assume c: "c \<in> set (np_unique (deck g))" and "hit g c = Inr s" "hit g' c = Inr s'"
    with same_key_hit[OF key cfg hit, of c]
    show "get_theoretical_win_probability_2p n s r'' =
          get_theoretical_win_probability_2p n s' r''"
      by (auto intro: Suc.IH)
  qed simp
  have st: "get_theoretical_win_probability_2p n (stay g) r' =
            get_theoretical_win_probability_2p n (stay g') r'" for r'
    using same_key_stay[OF key cfg] by (auto intro: Suc.IH)
  have go: "is_game_over_2p g' = is_game_over_2p g"
    by (rule same_key_is_game_over_2p[OF key cfg, symmetric])
  have t: "turn g' = turn g"
    by (rule same_key_turn[OF key, symmetric])
  have q: "query agent' g' = query agent' g" for agent'
    by (rule same_key_query[OF key cfg, symmetric])
  show ?case
  proof (cases "r (get_game_state_representation g)")
    case (Some v)
    then have "r (get_game_state_representation g') = Some v" using key by simp
    with Some show ?thesis
      using gtwp2_unfold(1)[where g=g and r=r and n=n and v=v]
        gtwp2_unfold(1)[where g=g' and r=r and n=n and v=v] by simp
  next
    case None
    then have None': "r (get_game_state_representation g') = None" using key by simp
    show ?thesis
    proof (cases g rule: is_game_over_2p_cases)
      case (over result)
      then have "is_game_over_2p g' = (True, Some result)" using go by simp
      with over None None' show ?thesis
        using gtwp2_unfold(2)[where g=g and r=r and n=n and result=result]
          gtwp2_unfold(2)[where g=g' and r=r and n=n and result=result] by simp
    next
      case running
      then have running': "is_game_over_2p g' = (False, None)" using go by simp
      show ?thesis
      proof (cases "turn g = 1")
        case True
        then have "turn g' = 1" using t by simp
        with True running running' None None' show ?thesis
          using gtwp2_unfold(3)[where g=g and r=r and n=n]
            gtwp2_unfold(3)[where g=g' and r=r and n=n]
          by (simp add: loop st q key cong: if_cong)
      next
        case False
        then have "turn g' \<noteq> 1" using t by simp
        with False running running' None None' show ?thesis
          using gtwp2_unfold(4)[where g=g and r=r and n=n]
            gtwp2_unfold(4)[where g=g' and r=r and n=n]
          by (simp add: loop st q key cong: if_cong)
      qed
    qed
  qed
qed

lemma gaiwp1_same_key:
  "get_game_state_representation g = get_game_state_representation g' \<Longrightarrow>
   same_configuration g g' \<Longrightarrow>
   get_ai_win_probability_1p n agent g r = get_ai_win_probability_1p n agent g' r"
proof (induction n arbitrary: g g' r)
  case 0
  then show ?case by simp
next
  case (Suc n)
  note key = Suc.prems(1) and cfg = Suc.prems(2)
  have loop: "hit_loop acc1 hit (get_ai_win_probability_1p n agent ) g
                (np_unique (deck g)) tot r' =
              hit_loop acc1 hit (get_ai_win_probability_1p n agent ) g'
                (np_unique (deck g')) tot r'"
    if hit: "hit = dealer_hit \<or> hit = player_hit" for hit tot and r' :: record_ai_1p
    unfolding same_key_np_unique[OF key, symmetric]
  proof (rule hit_loop_same_key[OF _ key cfg _ hit])
    fix c s s' r''
    assume c: "c \<in> set (np_unique (deck g))" and "hit g c = Inr s" "hit g' c = Inr s'"
    with same_key_hit[OF key cfg hit, of c]
    show "get_ai_win_probability_1p n agent s r'' =
          get_ai_win_probability_1p n agent s' r''"
      by (auto intro: Suc.IH)
  qed simp
  have st: "get_ai_win_probability_1p n agent (stay g) r' =
            get_ai_win_probability_1p n agent (stay g') r'" for r'
    using same_key_stay[OF key cfg] by (auto intro: Suc.IH)
  have go: "is_game_over_1p g' = is_game_over_1p g"
    by (rule same_key_is_game_over_1p[OF key cfg, symmetric])
  have t: "turn g' = turn g"
    by (rule same_key_turn[OF key, symmetric])
  have q: "query agent' g' = query agent' g" for agent'
    by (rule same_key_query[OF key cfg, symmetric])
  show ?case
  proof (cases "r (get_game_state_representation g)")
    case (Some v)
    then have "r (get_game_state_representation g') = Some v" using key by simp
    with Some show ?thesis
      using gaiwp1_unfold(1)[where g=g and r=r and n=n and v=v]
        gaiwp1_unfold(1)[where g=g' and r=r and n=n and v=v] by simp
  next
    case None
    then have None': "r (get_game_state_representation g') = None" using key by simp
    show ?thesis
    proof (cases g rule: is_game_over_1p_cases)
      case (over result)
      then have "is_game_over_1p g' = (True, Some result)" using go by simp
      with over None None' show ?thesis
        using gaiwp1_unfold(2)[where g=g and r=r and n=n and result=result]
          gaiwp1_unfold(2)[where g=g' and r=r and n=n and result=result] by simp
    next
      case running
      then have running': "is_game_over_1p g' = (False, None)" using go by simp
      show ?thesis
      proof (cases "turn g = 1")
        case True
        then have "turn g' = 1" using t by simp
        with True running running' None None' show ?thesis
          using gaiwp1_unfold(3)[where g=g and r=r and n=n]
            gaiwp1_unfold(3)[where g=g' and r=r and n=n]
          by (simp add: loop st q key cong: if_cong)
      next
        case False
        then have "turn g' \<noteq> 1" using t by simp
        with False running running' None None' show ?thesis
          using gaiwp1_unfold(4)[where g=g and r=r and n=n]
            gaiwp1_unfold(4)[where g=g' and r=r and n=n]
          by (simp add: loop st q key cong: if_cong)
      qed
    qed
  qed
qed

lemma gaiwp2_same_key:
  "get_game_state_representation g = get_game_state_representation g' \<Longrightarrow>
   same_configuration g g' \<Longrightarrow>
   get_ai_win_probability_2p n pa da g r = get_ai_win_probability_2p n pa da g' r"
proof (induction n arbitrary: g g' r)
  case 0
  then show ?case by simp
next
  case (Suc n)
  note key = Suc.prems(1) and cfg = Suc.prems(2)
  have loop: "hit_loop acc3 hit (get_ai_win_probability_2p n pa da ) g
                (np_unique (deck g)) tot r' =
              hit_loop acc3 hit (get_ai_win_probability_2p n pa da ) g'
                (np_unique (deck g')) tot r'"
    if hit: "hit = dealer_hit \<or> hit = player_hit" for hit tot and r' :: record_ai_2p
    unfolding same_key_np_unique[OF key, symmetric]
  proof (rule hit_loop_same_key[OF _ key cfg _ hit])
    fix c s s' r''
    assume c: "c \<in> set (np_unique (deck g))" and "hit g c = Inr s" "hit g' c = Inr s'"
    with same_key_hit[OF key cfg hit, of c]
    show "get_ai_win_probability_2p n pa da s r'' =
          get_ai_win_probability_2p n pa da s' r''"
      by (auto intro: Suc.IH)
  qed simp
  have st: "get_ai_win_probability_2p n pa da (stay g) r' =
            get_ai_win_probability_2p n pa da (stay g') r'" for r'
    using same_key_stay[OF key cfg] by (auto intro: Suc.IH)
  have go: "is_game_over_2p g' = is_game_over_2p g"
    by (rule same_key_is_game_over_2p[OF key cfg, symmetric])
  have t: "turn g' = turn g"
    by (rule same_key_turn[OF key, symmetric])
  have q: "query agent' g' = query agent' g" for agent'
    by (rule same_key_query[OF key cfg, symmetric])
  show ?case
  proof (cases "r (get_game_state_representation g)")
    case (Some v)
    then have "r (get_game_state_representation g') = Some v" using key by simp
    with Some show ?thesis
      using gaiwp2_unfold(1)[where g=g and r=r and n=n and v=v]
        gaiwp2_unfold(1)[where g=g' and r=r and n=n and v=v] by simp
  next
    case None
    then have None': "r (get_game_state_representation g') = None" using key by simp
    show ?thesis
    proof (cases g rule: is_game_over_2p_cases)
      case (over result)
      then have "is_game_over_2p g' = (True, Some result)" using go by simp
      with over None None' show ?thesis
        using gaiwp2_unfold(2)[where g=g and r=r and n=n and result=result]
          gaiwp2_unfold(2)[where g=g' and r=r and n=n and result=result] by simp
    next
      case running
      then have running': "is_game_over_2p g' = (False, None)" using go by simp
      show ?thesis
      proof (cases "turn g = 1")
        case True
        then have "turn g' = 1" using t by simp
        with True running running' None None' show ?thesis
          using gaiwp2_unfold(3)[where g=g and r=r and n=n]
            gaiwp2_unfold(3)[where g=g' and r=r and n=n]
          by (simp add: loop st q key cong: if_cong)
      next
        case False
        then have "turn g' \<noteq> 1" using t by simp
        with False running running' None None' show ?thesis
          using gaiwp2_unfold(4)[where g=g and r=r and n=n]
            gaiwp2_unfold(4)[where g=g' and r=r and n=n]
          by (simp add: loop st q key cong: if_cong)
      qed
    qed
  qed
qed

text \<open>
  Claim C3. Two game states of one game configuration (same full deck and bust threshold,
  same dealer limit in the one-player variant) that have the same canonical key get the
  same answer from \<open>is_game_over\<close>, and each solver, run with any depth budget and any memo
  table, returns the same result (probabilities, updated memo table or exception) on both.
\<close>

theorem same_key_outcome_equivalent:
  "(get_game_state_representation g1 = get_game_state_representation g1' \<and>
    deck_copy g1 = deck_copy g1' \<and> blackjack_num g1 = blackjack_num g1' \<and>
    dealer_limit g1 = dealer_limit g1' \<longrightarrow>
      is_game_over_1p g1 = is_game_over_1p g1' \<and>
      get_theoretical_win_probability_1p n g1 r1 = get_theoretical_win_probability_1p n g1' r1 \<and>
      get_ai_win_probability_1p n agent g1 r3 = get_ai_win_probability_1p n agent g1' r3) \<and>
   (get_game_state_representation g2 = get_game_state_representation g2' \<and>
    deck_copy g2 = deck_copy g2' \<and> blackjack_num g2 = blackjack_num g2' \<longrightarrow>
      is_game_over_2p g2 = is_game_over_2p g2' \<and>
      get_theoretical_win_probability_2p n g2 r2 = get_theoretical_win_probability_2p n g2' r2 \<and>
      get_ai_win_probability_2p n player_agent dealer_agent g2 r4 =
        get_ai_win_probability_2p n player_agent dealer_agent g2' r4)"
  using same_key_is_game_over_1p[of g1 g1'] gtwp1_same_key[of g1 g1' n r1]
    gaiwp1_same_key[of g1 g1' n agent r3]
    same_key_is_game_over_2p[of g2 g2'] gtwp2_same_key[of g2 g2' n r2]
    gaiwp2_same_key[of g2 g2' n player_agent dealer_agent r4]
  by (simp add: same_configuration_1p same_configuration_2p)

theorem same_key_outcome_equivalent_witness:
  "is_game_over_1p
     \<lparr>deck_copy = [1, 2, 3, 4, 4], blackjack_num = 8, deck = [2, 3], dealer_hand = [4],
      player_hand = [1, 4], turn = 0, dealer_limit = 6\<rparr> =
   is_game_over_1p
     \<lparr>deck_copy = [1, 2, 3, 4, 4], blackjack_num = 8, deck = [3, 2], dealer_hand = [1, 3],
      player_hand = [5], turn = 0, dealer_limit = 6\<rparr> \<and>
   get_theoretical_win_probability_1p 5
     \<lparr>deck_copy = [1, 2, 3, 4, 4], blackjack_num = 8, deck = [2, 3], dealer_hand = [4],
      player_hand = [1, 4], turn = 0, dealer_limit = 6\<rparr> Map.empty =
   get_theoretical_win_probability_1p 5
     \<lparr>deck_copy = [1, 2, 3, 4, 4], blackjack_num = 8, deck = [3, 2], dealer_hand = [1, 3],
      player_hand = [5], turn = 0, dealer_limit = 6\<rparr> Map.empty \<and>
   get_ai_win_probability_1p 5 (\<lambda>features. Inr 1)
     \<lparr>deck_copy = [1, 2, 3, 4, 4], blackjack_num = 8, deck = [2, 3], dealer_hand = [4],
      player_hand = [1, 4], turn = 0, dealer_limit = 6\<rparr> Map.empty =
   get_ai_win_probability_1p 5 (\<lambda>features. Inr 1)
     \<lparr>deck_copy = [1, 2, 3, 4, 4], blackjack_num = 8, deck = [3, 2], dealer_hand = [1, 3],
      player_hand = [5], turn = 0, dealer_limit = 6\<rparr> Map.empty \<and>
   is_game_over_2p
     \<lparr>deck_copy = [1, 2, 3, 4, 4], blackjack_num = 8, deck = [2, 3], dealer_hand = [4],
      player_hand = [1, 4], turn = 1\<rparr> =
   is_game_over_2p
     \<lparr>deck_copy = [1, 2, 3, 4, 4], blackjack_num = 8, deck = [3, 2], dealer_hand = [1, 3],
      player_hand = [5], turn = 1\<rparr> \<and>
   get_theoretical_win_probability_2p 5
     \<lparr>deck_copy = [1, 2, 3, 4, 4], blackjack_num = 8, deck = [2, 3], dealer_hand = [4],
      player_hand = [1, 4], turn = 1\<rparr> Map.empty =
   get_theoretical_win_probability_2p 5
     \<lparr>deck_copy = [1, 2, 3, 4, 4], blackjack_num = 8, deck = [3, 2], dealer_hand = [1, 3],
      player_hand = [5], turn = 1\<rparr> Map.empty \<and>
   get_ai_win_probability_2p 5 (\<lambda>features. Inr 1) (\<lambda>features. Inr 0)
     \<lparr>deck_copy = [1, 2, 3, 4, 4], blackjack_num = 8, deck = [2, 3], dealer_hand = [4],
      player_hand = [1, 4], turn = 1\<rparr> Map.empty =
   get_ai_win_probability_2p 5 (\<lambda>features. Inr 1) (\<lambda>features. Inr 0)
     \<lparr>deck_copy = [1, 2, 3, 4, 4], blackjack_num = 8, deck = [3, 2], dealer_hand = [1, 3],
      player_hand = [5], turn = 1\<rparr> Map.empty"
  using same_key_outcome_equivalent
    [of "\<lparr>deck_copy = [1, 2, 3, 4, 4], blackjack_num = 8, deck = [2, 3], dealer_hand = [4],
          player_hand = [1, 4], turn = 0, dealer_limit = 6\<rparr>"
        "\<lparr>deck_copy = [1, 2, 3, 4, 4], blackjack_num = 8, deck = [3, 2], dealer_hand = [1, 3],
          player_hand = [5], turn = 0, dealer_limit = 6\<rparr>"
        5 Map.empty "\<lambda>features. Inr 1" Map.empty
        "\<lparr>deck_copy = [1, 2, 3, 4, 4], blackjack_num = 8, deck = [2, 3], dealer_hand = [4],
          player_hand = [1, 4], turn = 1\<rparr>"
        "\<lparr>deck_copy = [1, 2, 3, 4, 4], blackjack_num = 8, deck = [3, 2], dealer_hand = [1, 3],
          player_hand = [5], turn = 1\<rparr>"
        Map.empty "\<lambda>features. Inr 1" "\<lambda>features. Inr 0" Map.empty]
  by (simp add: get_game_state_representation_def)

subsection \<open>Optimal play is at least as good as random play\<close>

lemma hit_loop_invariant:
  assumes solve: "\<And>c s r v r'. c \<in> set cs \<Longrightarrow> hit g c = Inr s \<Longrightarrow> I r \<Longrightarrow>
      solve s r = Inr (v, r') \<Longrightarrow> Q v \<and> I r'"
    and acc: "\<And>p v tot. 0 \<le> p \<Longrightarrow> Q v \<Longrightarrow> T tot \<Longrightarrow> T (acc p v tot)"
    and cs: "set cs \<subseteq> set (deck g)"
    and hit: "hit = dealer_hit \<or> hit = player_hit"
    and init: "T tot" "I r"
    and res: "hit_loop acc hit solve g cs tot r = Inr (tot', r')"
  shows "T tot' \<and> I r'"
  using cs init res solve
proof (induction cs arbitrary: tot r)
  case Nil
  then show ?case by simp
next
  case (Cons c cs)
  from Cons.prems(1) have c: "c \<in> set (deck g)" and cs': "set cs \<subseteq> set (deck g)"
    by simp_all
  obtain s where s: "hit g c = Inr s"
    using hit c dealer_hit_Inr[of c g] player_hit_Inr[of c g] by auto
  let ?p = "real (count_list (deck g) c) / real (length (deck g))"
  from Cons.prems(4) s c obtain v r1 where
    v: "solve s r = Inr (v, r1)"
    and rest: "hit_loop acc hit solve g cs (acc ?p v tot) r1 = Inr (tot', r')"
    by (auto simp: draw_prob_Inr bind_e_eq_Inr)
  from Cons.prems(5)[of c s r v r1] s v Cons.prems(3) have Q: "Q v" and I: "I r1"
    by simp_all
  have T: "T (acc ?p v tot)"
    by (rule acc) (simp_all add: Q Cons.prems(2))
  show ?case
    by (rule Cons.IH[OF cs' T I rest]) (rule Cons.prems(5), simp_all)
qed

lemma acc2_monotone:
  "0 \<le> p \<Longrightarrow> snd v \<le> fst v \<Longrightarrow> snd tot \<le> fst tot \<Longrightarrow>
   snd (acc2 p v tot) \<le> fst (acc2 p v tot)"
  by (cases v, cases tot) (simp add: acc2_def add_mono mult_left_mono)

lemma record_1p_monotoneD:
  "record_1p_monotone r \<Longrightarrow> r k = Some (opt, rnd) \<Longrightarrow> rnd \<le> opt"
  unfolding record_1p_monotone_def by blast

lemma record_1p_monotone_upd:
  "record_1p_monotone r \<Longrightarrow> rnd \<le> opt \<Longrightarrow> record_1p_monotone (r(k \<mapsto> (opt, rnd)))"
  unfolding record_1p_monotone_def by simp

lemma gtwp1_monotone:
  "record_1p_monotone r \<Longrightarrow>
   get_theoretical_win_probability_1p n g r = Inr ((opt, rnd), r') \<Longrightarrow>
   rnd \<le> opt \<and> record_1p_monotone r'"
proof (induction n arbitrary: g r opt rnd r')
  case 0
  then show ?case by simp
next
  case (Suc n)
  note inv = Suc.prems(1) and res = Suc.prems(2)
  have loop: "snd tot' \<le> fst tot' \<and> record_1p_monotone ra'"
    if hit: "hit = dealer_hit \<or> hit = player_hit"
      and ra: "record_1p_monotone ra"
      and l: "hit_loop acc2 hit (get_theoretical_win_probability_1p n) g
                (np_unique (deck g)) (0, 0) ra = Inr (tot', ra')"
    for hit ra tot' ra'
  proof (rule hit_loop_invariant[where Q="\<lambda>v. snd v \<le> fst v" and T="\<lambda>v. snd v \<le> fst v"
        and I=record_1p_monotone and acc=acc2, OF _ _ _ hit _ ra l])
    fix c s r v r'
    assume "record_1p_monotone r" "get_theoretical_win_probability_1p n s r = Inr (v, r')"
    then show "snd v \<le> fst v \<and> record_1p_monotone r'"
      using Suc.IH[of r s "fst v" "snd v" r'] by simp
  qed (simp_all add: acc2_monotone)
  show ?case
  proof (cases "r (get_game_state_representation g)")
    case (Some v)
    with res have "r' = r" "r (get_game_state_representation g) = Some (opt, rnd)"
      by (simp_all add: gtwp1_unfold)
    with inv show ?thesis
      using record_1p_monotoneD[of r "get_game_state_representation g" opt rnd] by simp
  next
    case None
    show ?thesis
    proof (cases g rule: is_game_over_1p_cases)
      case (over result)
      with None res inv show ?thesis by (auto simp: gtwp1_unfold)
    next
      case running
      show ?thesis
      proof (cases "turn g = 1")
        case True
        with None running res obtain ra' where
          l: "hit_loop acc2 dealer_hit (get_theoretical_win_probability_1p n) g
                (np_unique (deck g)) (0, 0) r = Inr ((opt, rnd), ra')"
          and r': "r' = ra'(get_game_state_representation g \<mapsto> (opt, rnd))"
          by (auto simp: gtwp1_unfold bind_e_eq_Inr)
        from loop[OF _ inv l] have "rnd \<le> opt" "record_1p_monotone ra'" by simp_all
        then show ?thesis unfolding r' by (intro conjI record_1p_monotone_upd)
      next
        case False
        with None running res obtain so sr r1 ho hr r2 where
          st: "get_theoretical_win_probability_1p n (stay g) r = Inr ((so, sr), r1)"
          and l: "hit_loop acc2 player_hit (get_theoretical_win_probability_1p n) g
                (np_unique (deck g)) (0, 0) r1 = Inr ((ho, hr), r2)"
          and v: "opt = max so ho" "rnd = 0.5 * sr + 0.5 * hr"
          and r': "r' = r2(get_game_state_representation g \<mapsto> (opt, rnd))"
          by (auto simp: gtwp1_unfold bind_e_eq_Inr)
        from Suc.IH[OF inv st] have s: "sr \<le> so" "record_1p_monotone r1" by simp_all
        from loop[OF _ s(2) l] have h: "hr \<le> ho" "record_1p_monotone r2" by simp_all
        from s(1) h(1) v have "rnd \<le> opt" by (simp add: max_def)
        with h(2) show ?thesis unfolding r' by (intro conjI record_1p_monotone_upd)
      qed
    qed
  qed
qed

lemma record_2p_monotoneD:
  "record_2p_monotone r \<Longrightarrow> r k = Some v \<Longrightarrow> slots_monotone v"
  unfolding record_2p_monotone_def slots_monotone_def by (cases v) blast

lemma record_2p_monotone_upd:
  "record_2p_monotone r \<Longrightarrow> slots_monotone v \<Longrightarrow> record_2p_monotone (r(k \<mapsto> v))"
  unfolding record_2p_monotone_def slots_monotone_def by (cases v) simp

lemma acc4_monotone:
  "0 \<le> p \<Longrightarrow> slots_monotone v \<Longrightarrow> slots_monotone tot \<Longrightarrow> slots_monotone (acc4 p v tot)"
  by (cases v, cases tot) (simp add: acc4_def slots_monotone_def add_mono mult_left_mono)

lemma gtwp2_monotone:
  "record_2p_monotone r \<Longrightarrow>
   get_theoretical_win_probability_2p n g r = Inr (v, r') \<Longrightarrow>
   slots_monotone v \<and> record_2p_monotone r'"
proof (induction n arbitrary: g r v r')
  case 0
  then show ?case by simp
next
  case (Suc n)
  note inv = Suc.prems(1) and res = Suc.prems(2)
  have loop: "slots_monotone tot' \<and> record_2p_monotone ra'"
    if hit: "hit = dealer_hit \<or> hit = player_hit"
      and ra: "record_2p_monotone ra"
      and l: "hit_loop acc4 hit (get_theoretical_win_probability_2p n) g
                (np_unique (deck g)) (0, 0, 0, 0) ra = Inr (tot', ra')"
    for hit ra tot' ra'
  proof (rule hit_loop_invariant[where Q=slots_monotone and T=slots_monotone
        and I=record_2p_monotone and acc=acc4, OF _ _ _ hit _ ra l])
    fix c s r v r'
    assume "record_2p_monotone r" "get_theoretical_win_probability_2p n s r = Inr (v, r')"
    then show "slots_monotone v \<and> record_2p_monotone r'"
      by (rule Suc.IH)
  qed (simp_all add: acc4_monotone, simp add: slots_monotone_def)
  show ?case
  proof (cases "r (get_game_state_representation g)")
    case (Some w)
    with res have "r' = r" "r (get_game_state_representation g) = Some v"
      by (simp_all add: gtwp2_unfold)
    with inv show ?thesis
      using record_2p_monotoneD[of r "get_game_state_representation g" v] by simp
  next
    case None
    show ?thesis
    proof (cases g rule: is_game_over_2p_cases)
      case (over result)
      with None res inv show ?thesis by (auto simp: gtwp2_unfold slots_monotone_def)
    next
      case running
      show ?thesis
      proof (cases "turn g = 1")
        case True
        with None running res obtain s1 s2 s3 s4 r1 h1 h2 h3 h4 r2 where
          st: "get_theoretical_win_probability_2p n (stay g) r = Inr ((s1, s2, s3, s4), r1)"
          and l: "hit_loop acc4 dealer_hit (get_theoretical_win_probability_2p n) g
                (np_unique (deck g)) (0, 0, 0, 0) r1 = Inr ((h1, h2, h3, h4), r2)"
          and v: "v = (min s1 h1, 0.5 * s2 + 0.5 * h2, min s3 h3, 0.5 * s4 + 0.5 * h4)"
          and r': "r' = r2(get_game_state_representation g \<mapsto> v)"
          by (auto simp: gtwp2_unfold bind_e_eq_Inr)
        from Suc.IH[OF inv st] have s: "slots_monotone (s1, s2, s3, s4)" "record_2p_monotone r1"
          by simp_all
        from loop[OF _ s(2) l] have h: "slots_monotone (h1, h2, h3, h4)" "record_2p_monotone r2"
          by simp_all
        from s(1) h(1) v have "slots_monotone v" by (auto simp: slots_monotone_def min_def)
        with h(2) show ?thesis unfolding r' by (intro conjI record_2p_monotone_upd)
      next
        case False
        with None running res obtain s1 s2 s3 s4 r1 h1 h2 h3 h4 r2 where
          st: "get_theoretical_win_probability_2p n (stay g) r = Inr ((s1, s2, s3, s4), r1)"
          and l: "hit_loop acc4 player_hit (get_theoretical_win_probability_2p n) g
                (np_unique (deck g)) (0, 0, 0, 0) r1 = Inr ((h1, h2, h3, h4), r2)"
          and v: "v = (max s1 h1, max s2 h2, 0.5 * s3 + 0.5 * h3, 0.5 * s4 + 0.5 * h4)"
          and r': "r' = r2(get_game_state_representation g \<mapsto> v)"
          by (auto simp: gtwp2_unfold bind_e_eq_Inr)
        from Suc.IH[OF inv st] have s: "slots_monotone (s1, s2, s3, s4)" "record_2p_monotone r1"
          by simp_all
        from loop[OF _ s(2) l] have h: "slots_monotone (h1, h2, h3, h4)" "record_2p_monotone r2"
          by simp_all
        from s(1) h(1) v have "slots_monotone v" by (auto simp: slots_monotone_def max_def)
        with h(2) show ?thesis unfolding r' by (intro conjI record_2p_monotone_upd)
      qed
    qed
  qed
qed

text \<open>
  Claim C5. On every state whose turn is in range, started with a memo table whose entries
  already satisfy the inequality (the empty table, or one left by earlier calls), the
  analytical solver returns, and in its result the optimal player's slot is at least the
  random player's slot against the same dealer: optimal \<ge> random in the one-player
  variant, opod \<ge> rpod and oprd \<ge> rprd in the two-player variant. The memo table it leaves
  satisfies the inequality again.
\<close>

theorem optimal_at_least_random:
  "(record_1p_monotone r1 \<and> turn g1 \<le> 1 \<and> length (deck g1) + nat (1 - turn g1) < n \<longrightarrow>
      (\<exists>opt rnd r'. get_theoretical_win_probability_1p n g1 r1 = Inr ((opt, rnd), r') \<and>
         rnd \<le> opt \<and> record_1p_monotone r')) \<and>
   (record_2p_monotone r2 \<and> turn g2 \<le> 2 \<and> length (deck g2) + nat (2 - turn g2) < n \<longrightarrow>
      (\<exists>opod oprd rpod rprd r'.
         get_theoretical_win_probability_2p n g2 r2 = Inr ((opod, oprd, rpod, rprd), r') \<and>
         rpod \<le> opod \<and> rprd \<le> oprd \<and> record_2p_monotone r'))"
proof (intro conjI impI)
  assume a: "record_1p_monotone r1 \<and> turn g1 \<le> 1 \<and> length (deck g1) + nat (1 - turn g1) < n"
  with gtwp1_returns[of g1 n r1] obtain opt rnd r' where
    res: "get_theoretical_win_probability_1p n g1 r1 = Inr ((opt, rnd), r')"
    by auto
  with gtwp1_monotone[of r1 n g1 opt rnd r'] a
  show "\<exists>opt rnd r'. get_theoretical_win_probability_1p n g1 r1 = Inr ((opt, rnd), r') \<and>
         rnd \<le> opt \<and> record_1p_monotone r'"
    by blast
next
  assume a: "record_2p_monotone r2 \<and> turn g2 \<le> 2 \<and> length (deck g2) + nat (2 - turn g2) < n"
  with gtwp2_returns[of g2 n r2] obtain opod oprd rpod rprd r' where
    res: "get_theoretical_win_probability_2p n g2 r2 = Inr ((opod, oprd, rpod, rprd), r')"
    by auto
  with gtwp2_monotone[of r2 n g2 "(opod, oprd, rpod, rprd)" r'] a
  show "\<exists>opod oprd rpod rprd r'.
         get_theoretical_win_probability_2p n g2 r2 = Inr ((opod, oprd, rpod, rprd), r') \<and>
         rpod \<le> opod \<and> rprd \<le> oprd \<and> record_2p_monotone r'"
    by (auto simp: slots_monotone_def)
qed

theorem optimal_at_least_random_witness:
  "(\<exists>opt rnd r'. get_theoretical_win_probability_1p 5
       \<lparr>deck_copy = [1, 2, 3, 4, 4], blackjack_num = 8, deck = [2, 3], dealer_hand = [4],
        player_hand = [1, 4], turn = 0, dealer_limit = 6\<rparr> Map.empty = Inr ((opt, rnd), r') \<and>
       rnd \<le> opt \<and> record_1p_monotone r') \<and>
   (\<exists>opod oprd rpod rprd r'. get_theoretical_win_probability_2p 5
       \<lparr>deck_copy = [1, 2, 3, 4, 4], blackjack_num = 8, deck = [2, 3], dealer_hand = [4],
        player_hand = [1, 4], turn = 0\<rparr> Map.empty = Inr ((opod, oprd, rpod, rprd), r') \<and>
       rpod \<le> opod \<and> rprd \<le> oprd \<and> record_2p_monotone r')"
  using optimal_at_least_random
    [of Map.empty
        "\<lparr>deck_copy = [1, 2, 3, 4, 4], blackjack_num = 8, deck = [2, 3], dealer_hand = [4],
          player_hand = [1, 4], turn = 0, dealer_limit = 6\<rparr>"
        5 Map.empty
        "\<lparr>deck_copy = [1, 2, 3, 4, 4], blackjack_num = 8, deck = [2, 3], dealer_hand = [4],
          player_hand = [1, 4], turn = 0\<rparr>"]
  by (simp add: record_1p_monotone_def record_2p_monotone_def)

subsection \<open>What the policy-driven solvers do with the oracle's answer\<close>









subsection \<open>The initial-state probabilities\<close>























subsection \<open>The analytical solvers compute the memo-free values\<close>

declare value_1p.simps [simp del]
declare value_2p.simps [simp del]

lemma dealer_hit_state: "c \<in> set (deck g) \<Longrightarrow> dealer_hit g c = Inr (dealer_hit_state g c)"
  by (simp add: dealer_hit_Inr dealer_hit_state_def)

lemma player_hit_state: "c \<in> set (deck g) \<Longrightarrow> player_hit g c = Inr (player_hit_state g c)"
  by (simp add: player_hit_Inr player_hit_state_def)

lemma draw_prob_share: "c \<in> set (deck g) \<Longrightarrow> draw_prob g c = Inr (card_share g c)"
  by (simp add: draw_prob_Inr card_share_def)

lemma same_key_card_share:
  "get_game_state_representation g = get_game_state_representation g' \<Longrightarrow>
   card_share g c = card_share g' c"
  using mset_eq_facts(2,3)[of "deck g" "deck g'"]
  by (simp add: key_eq_iff card_share_def)

lemma same_configuration_refl [simp]: "same_configuration g g"
  by (simp add: same_configuration_def)

lemma same_configuration_sym: "same_configuration g g' \<Longrightarrow> same_configuration g' g"
  by (simp add: same_configuration_def)

lemma same_configuration_trans:
  "same_configuration g g' \<Longrightarrow> same_configuration g' g'' \<Longrightarrow> same_configuration g g''"
  by (simp add: same_configuration_def)

lemma same_configuration_states [simp]:
  "same_configuration (stay g) g" "same_configuration (dealer_hit_state g c) g"
  "same_configuration (player_hit_state g c) g"
  by (simp_all add: same_configuration_def dealer_hit_state_def player_hit_state_def)

lemma hit_state_simps [simp]:
  "turn (dealer_hit_state g c) = turn g" "turn (player_hit_state g c) = turn g"
  by (simp_all add: dealer_hit_state_def player_hit_state_def)

lemma same_key_hit_states:
  assumes key: "get_game_state_representation g = get_game_state_representation g'"
    and c: "c \<in> set (deck g)"
  shows "get_game_state_representation (dealer_hit_state g c) =
           get_game_state_representation (dealer_hit_state g' c)"
    and "get_game_state_representation (player_hit_state g c) =
           get_game_state_representation (player_hit_state g' c)"
  using assms by (simp_all add: key_eq_iff dealer_hit_state_def player_hit_state_def)

lemma value_1p_unfold:
  "is_game_over_1p g = (True, Some result) \<Longrightarrow> value_1p g = (result, result)"
  "is_game_over_1p g = (False, None) \<Longrightarrow> turn g = 1 \<Longrightarrow>
     value_1p g = fold (\<lambda>c. acc2 (card_share g c) (value_1p (dealer_hit_state g c)))
                    (np_unique (deck g)) (0, 0)"
  "is_game_over_1p g = (False, None) \<Longrightarrow> turn g \<le> 0 \<Longrightarrow>
     value_1p g =
       (max (fst (value_1p (stay g)))
            (fst (fold (\<lambda>c. acc2 (card_share g c) (value_1p (player_hit_state g c)))
                    (np_unique (deck g)) (0, 0))),
        0.5 * snd (value_1p (stay g)) +
        0.5 * snd (fold (\<lambda>c. acc2 (card_share g c) (value_1p (player_hit_state g c)))
                    (np_unique (deck g)) (0, 0)))"
  by (subst value_1p.simps, simp add: Let_def)+

lemma value_2p_unfold:
  "is_game_over_2p g = (True, Some result) \<Longrightarrow> value_2p g = (result, result, result, result)"
  "is_game_over_2p g = (False, None) \<Longrightarrow> turn g = 1 \<Longrightarrow>
     value_2p g =
       (case (value_2p (stay g),
              fold (\<lambda>c. acc4 (card_share g c) (value_2p (dealer_hit_state g c)))
                (np_unique (deck g)) (0, 0, 0, 0)) of
          ((stay_opod, stay_oprd, stay_rpod, stay_rprd),
           (hit_opod, hit_oprd, hit_rpod, hit_rprd)) \<Rightarrow>
            (min stay_opod hit_opod, 0.5 * stay_oprd + 0.5 * hit_oprd,
             min stay_rpod hit_rpod, 0.5 * stay_rprd + 0.5 * hit_rprd))"
  "is_game_over_2p g = (False, None) \<Longrightarrow> turn g \<le> 0 \<Longrightarrow>
     value_2p g =
       (case (value_2p (stay g),
              fold (\<lambda>c. acc4 (card_share g c) (value_2p (player_hit_state g c)))
                (np_unique (deck g)) (0, 0, 0, 0)) of
          ((stay_opod, stay_oprd, stay_rpod, stay_rprd),
           (hit_opod, hit_oprd, hit_rpod, hit_rprd)) \<Rightarrow>
            (max stay_opod hit_opod, max stay_oprd hit_oprd,
             0.5 * stay_rpod + 0.5 * hit_rpod, 0.5 * stay_rprd + 0.5 * hit_rprd))"
  by (subst value_2p.simps, simp)+

lemma fold_acc_cong:
  assumes "\<And>c. c \<in> set cs \<Longrightarrow> v c = v' c"
  shows "fold (\<lambda>c. acc (p c) (v c)) cs tot = fold (\<lambda>c. acc (p c) (v' c)) cs tot"
  by (rule fold_cong) (simp_all add: assms)

lemma value_1p_same_key:
  "get_game_state_representation g = get_game_state_representation g' \<Longrightarrow>
   same_configuration g g' \<Longrightarrow> value_1p g = value_1p g'"
proof (induction g arbitrary: g' rule: value_1p.induct)
  case (1 g)
  note key = "1.prems"(1) and cfg = "1.prems"(2)
  have go: "is_game_over_1p g' = is_game_over_1p g"
    by (rule same_key_is_game_over_1p[OF key cfg, symmetric])
  have t: "turn g' = turn g" by (rule same_key_turn[OF key, symmetric])
  have u: "np_unique (deck g') = np_unique (deck g)"
    by (rule same_key_np_unique[OF key, symmetric])
  have cfg': "same_configuration (hs g c) (hs g' c)"
    if "hs = dealer_hit_state \<or> hs = player_hit_state" for hs c
    using that cfg by (auto simp: same_configuration_def dealer_hit_state_def player_hit_state_def)
  show ?case
  proof (cases g rule: is_game_over_1p_cases)
    case (over result)
    with go show ?thesis by (simp add: value_1p_unfold)
  next
    case running
    then have running': "is_game_over_1p g' = (False, None)" using go by simp
    from running have n: "snd (is_game_over_1p g) = None" by simp
    show ?thesis
    proof (cases "turn g = 1")
      case True
      have "value_1p (dealer_hit_state g c) = value_1p (dealer_hit_state g' c)"
        if c: "c \<in> set (np_unique (deck g))" for c
        using "1.IH"(1)[OF n True c] same_key_hit_states(1)[OF key, of c] c cfg'[of dealer_hit_state c]
        by simp
      then have "fold (\<lambda>c. acc2 (card_share g c) (value_1p (dealer_hit_state g c)))
                   (np_unique (deck g)) (0, 0) =
                 fold (\<lambda>c. acc2 (card_share g c) (value_1p (dealer_hit_state g' c)))
                   (np_unique (deck g)) (0, 0)"
        by (rule fold_acc_cong)
      with True t running running' show ?thesis
        by (simp add: value_1p_unfold u same_key_card_share[OF key, symmetric])
    next
      case False
      show ?thesis
      proof (cases "turn g \<le> 0")
        case le: True
        have s: "value_1p (stay g) = value_1p (stay g')"
          using "1.IH"(2)[OF n False le] same_key_stay[OF key cfg] by simp
        have "value_1p (player_hit_state g c) = value_1p (player_hit_state g' c)"
          if c: "c \<in> set (np_unique (deck g))" for c
          using "1.IH"(3)[OF n False le _ c] same_key_hit_states(2)[OF key, of c] c
            cfg'[of player_hit_state c]
          by simp
        then have "fold (\<lambda>c. acc2 (card_share g c) (value_1p (player_hit_state g c)))
                     (np_unique (deck g)) (0, 0) =
                   fold (\<lambda>c. acc2 (card_share g c) (value_1p (player_hit_state g' c)))
                     (np_unique (deck g)) (0, 0)"
          by (rule fold_acc_cong)
        with le t running running' s show ?thesis
          by (simp add: value_1p_unfold u same_key_card_share[OF key, symmetric])
      next
        case gt: False
        with False t show ?thesis
          by (subst (1 2) value_1p.simps) (simp add: go)
      qed
    qed
  qed
qed

lemma value_2p_same_key:
  "get_game_state_representation g = get_game_state_representation g' \<Longrightarrow>
   same_configuration g g' \<Longrightarrow> value_2p g = value_2p g'"
proof (induction g arbitrary: g' rule: value_2p.induct)
  case (1 g)
  note key = "1.prems"(1) and cfg = "1.prems"(2)
  have go: "is_game_over_2p g' = is_game_over_2p g"
    by (rule same_key_is_game_over_2p[OF key cfg, symmetric])
  have t: "turn g' = turn g" by (rule same_key_turn[OF key, symmetric])
  have u: "np_unique (deck g') = np_unique (deck g)"
    by (rule same_key_np_unique[OF key, symmetric])
  have cfg': "same_configuration (hs g c) (hs g' c)"
    if "hs = dealer_hit_state \<or> hs = player_hit_state" for hs c
    using that cfg by (auto simp: same_configuration_def dealer_hit_state_def player_hit_state_def)
  show ?case
  proof (cases g rule: is_game_over_2p_cases)
    case (over result)
    with go show ?thesis by (simp add: value_2p_unfold)
  next
    case running
    then have running': "is_game_over_2p g' = (False, None)" using go by simp
    from running have n: "snd (is_game_over_2p g) = None" by simp
    show ?thesis
    proof (cases "turn g = 1")
      case True
      have s: "value_2p (stay g) = value_2p (stay g')"
        using "1.IH"(1)[OF n True] same_key_stay[OF key cfg] by simp
      have "value_2p (dealer_hit_state g c) = value_2p (dealer_hit_state g' c)"
        if c: "c \<in> set (np_unique (deck g))" for c
        using "1.IH"(2)[OF n True c] same_key_hit_states(1)[OF key, of c] c
          cfg'[of dealer_hit_state c]
        by simp
      then have "fold (\<lambda>c. acc4 (card_share g c) (value_2p (dealer_hit_state g c)))
                   (np_unique (deck g)) (0, 0, 0, 0) =
                 fold (\<lambda>c. acc4 (card_share g c) (value_2p (dealer_hit_state g' c)))
                   (np_unique (deck g)) (0, 0, 0, 0)"
        by (rule fold_acc_cong)
      with True t running running' s show ?thesis
        by (simp add: value_2p_unfold u same_key_card_share[OF key, symmetric])
    next
      case False
      show ?thesis
      proof (cases "turn g \<le> 0")
        case le: True
        have s: "value_2p (stay g) = value_2p (stay g')"
          using "1.IH"(3)[OF n False le] same_key_stay[OF key cfg] by simp
        have "value_2p (player_hit_state g c) = value_2p (player_hit_state g' c)"
          if c: "c \<in> set (np_unique (deck g))" for c
          using "1.IH"(4)[OF n False le c] same_key_hit_states(2)[OF key, of c] c
            cfg'[of player_hit_state c]
          by simp
        then have "fold (\<lambda>c. acc4 (card_share g c) (value_2p (player_hit_state g c)))
                     (np_unique (deck g)) (0, 0, 0, 0) =
                   fold (\<lambda>c. acc4 (card_share g c) (value_2p (player_hit_state g' c)))
                     (np_unique (deck g)) (0, 0, 0, 0)"
          by (rule fold_acc_cong)
        with le t running running' s show ?thesis
          by (simp add: value_2p_unfold u same_key_card_share[OF key, symmetric])
      next
        case gt: False
        with False t show ?thesis
          by (subst (1 2) value_2p.simps) (simp add: go)
      qed
    qed
  qed
qed

lemma hit_loop_partial:
  assumes solve: "\<And>c r v r'. c \<in> set cs \<Longrightarrow> I r \<Longrightarrow> solve (hs g c) r = Inr (v, r') \<Longrightarrow>
      v = val (hs g c) \<and> I r'"
    and hit: "(hit = dealer_hit \<and> hs = dealer_hit_state) \<or>
              (hit = player_hit \<and> hs = player_hit_state)"
    and cs: "set cs \<subseteq> set (deck g)"
    and init: "I r"
    and res: "hit_loop acc hit solve g cs tot r = Inr (tot', r')"
  shows "tot' = fold (\<lambda>c. acc (card_share g c) (val (hs g c))) cs tot \<and> I r'"
  using cs init res solve
proof (induction cs arbitrary: tot r)
  case Nil
  then show ?case by simp
next
  case (Cons c cs)
  from Cons.prems(1) have c: "c \<in> set (deck g)" and cs': "set cs \<subseteq> set (deck g)"
    by simp_all
  have s: "hit g c = Inr (hs g c)"
    using hit c dealer_hit_state[of c g] player_hit_state[of c g] by auto
  from Cons.prems(3) s c obtain v r1 where
    v: "solve (hs g c) r = Inr (v, r1)"
    and rest: "hit_loop acc hit solve g cs (acc (card_share g c) v tot) r1 = Inr (tot', r')"
    by (auto simp: draw_prob_share bind_e_eq_Inr)
  from Cons.prems(4)[of c r v r1] v Cons.prems(2) have val: "v = val (hs g c)" and I: "I r1"
    by simp_all
  have "tot' = fold (\<lambda>c. acc (card_share g c) (val (hs g c))) cs (acc (card_share g c) v tot)
        \<and> I r'"
    by (rule Cons.IH[OF cs' I rest]) (rule Cons.prems(4), simp_all)
  then show ?case by (simp add: val)
qed

lemma sound_1pD:
  "sound_1p g0 r \<Longrightarrow> same_configuration g g0 \<Longrightarrow> turn g \<le> 1 \<Longrightarrow>
   r (get_game_state_representation g) = Some v \<Longrightarrow> v = value_1p g"
  unfolding sound_1p_def by blast

lemma sound_1p_upd:
  assumes r: "sound_1p g0 r" and cfg: "same_configuration g g0"
  shows "sound_1p g0 (r(get_game_state_representation g \<mapsto> value_1p g))"
  unfolding sound_1p_def
proof (intro allI impI)
  fix g' v
  assume cfg': "same_configuration g' g0" and t: "turn g' \<le> 1"
    and l: "(r(get_game_state_representation g \<mapsto> value_1p g))
              (get_game_state_representation g') = Some v"
  show "v = value_1p g'"
  proof (cases "get_game_state_representation g' = get_game_state_representation g")
    case True
    with l have "v = value_1p g" by simp
    also have "\<dots> = value_1p g'"
      by (rule value_1p_same_key[OF True[symmetric]])
        (rule same_configuration_trans[OF cfg same_configuration_sym[OF cfg']])
    finally show ?thesis .
  next
    case False
    with l have "r (get_game_state_representation g') = Some v" by simp
    with r cfg' t show ?thesis by (rule sound_1pD)
  qed
qed

lemma sound_1p_empty [simp]: "sound_1p g0 Map.empty"
  by (simp add: sound_1p_def)

lemma gtwp1_partial:
  "sound_1p g0 r \<Longrightarrow> same_configuration g g0 \<Longrightarrow> turn g \<le> 1 \<Longrightarrow>
   get_theoretical_win_probability_1p n g r = Inr (v, r') \<Longrightarrow>
   v = value_1p g \<and> sound_1p g0 r'"
proof (induction n arbitrary: g r v r')
  case 0
  then show ?case by simp
next
  case (Suc n)
  note inv = Suc.prems(1) and cfg = Suc.prems(2) and t = Suc.prems(3) and res = Suc.prems(4)
  have loop: "tot' = fold (\<lambda>c. acc2 (card_share g c) (value_1p (hs g c)))
                       (np_unique (deck g)) (0, 0) \<and> sound_1p g0 ra'"
    if hit: "(hit = dealer_hit \<and> hs = dealer_hit_state) \<or>
             (hit = player_hit \<and> hs = player_hit_state)"
      and ra: "sound_1p g0 ra"
      and l: "hit_loop acc2 hit (get_theoretical_win_probability_1p n) g
                (np_unique (deck g)) (0, 0) ra = Inr (tot', ra')"
    for hit hs ra tot' ra'
  proof (rule hit_loop_partial[where I="sound_1p g0" and val=value_1p, OF _ hit _ ra l])
    fix c r v r'
    assume "sound_1p g0 r"
      and "get_theoretical_win_probability_1p n (hs g c) r = Inr (v, r')"
    moreover have "same_configuration (hs g c) g0"
      using hit same_configuration_trans[OF _ cfg] by auto
    moreover have "turn (hs g c) \<le> 1" using hit t by auto
    ultimately show "v = value_1p (hs g c) \<and> sound_1p g0 r'"
      by (intro Suc.IH)
  qed simp
  show ?case
  proof (cases "r (get_game_state_representation g)")
    case (Some w)
    with res have "r' = r" "r (get_game_state_representation g) = Some v"
      by (simp_all add: gtwp1_unfold)
    with inv cfg t show ?thesis using sound_1pD by blast
  next
    case None
    show ?thesis
    proof (cases g rule: is_game_over_1p_cases)
      case (over result)
      with None res inv show ?thesis by (auto simp: gtwp1_unfold value_1p_unfold)
    next
      case running
      show ?thesis
      proof (cases "turn g = 1")
        case True
        with None running res obtain ra' where
          l: "hit_loop acc2 dealer_hit (get_theoretical_win_probability_1p n) g
                (np_unique (deck g)) (0, 0) r = Inr (v, ra')"
          and r': "r' = ra'(get_game_state_representation g \<mapsto> v)"
          by (auto simp: gtwp1_unfold bind_e_eq_Inr)
        from loop[OF _ inv l, of dealer_hit_state] True running
        have v: "v = value_1p g" and "sound_1p g0 ra'"
          by (simp_all add: value_1p_unfold)
        then show ?thesis unfolding r' v by (intro conjI refl sound_1p_upd cfg)
      next
        case False
        with t have le: "turn g \<le> 0" by simp
        from False None running res obtain so sr r1 ho hr r2 where
          st: "get_theoretical_win_probability_1p n (stay g) r = Inr ((so, sr), r1)"
          and l: "hit_loop acc2 player_hit (get_theoretical_win_probability_1p n) g
                (np_unique (deck g)) (0, 0) r1 = Inr ((ho, hr), r2)"
          and v: "v = (max so ho, 0.5 * sr + 0.5 * hr)"
          and r': "r' = r2(get_game_state_representation g \<mapsto> v)"
          by (auto simp: gtwp1_unfold bind_e_eq_Inr)
        have "same_configuration (stay g) g0" "turn (stay g) \<le> 1"
          using same_configuration_trans[OF _ cfg] le by simp_all
        from Suc.IH[OF inv this st] have s: "(so, sr) = value_1p (stay g)" "sound_1p g0 r1"
          by simp_all
        from loop[OF _ s(2) l, of player_hit_state]
        have h: "(ho, hr) = fold (\<lambda>c. acc2 (card_share g c) (value_1p (player_hit_state g c)))
                       (np_unique (deck g)) (0, 0)" and r2: "sound_1p g0 r2"
          by simp_all
        have v': "v = value_1p g"
          unfolding v value_1p_unfold(3)[OF running le] s(1)[symmetric] h[symmetric] by simp
        show ?thesis unfolding r' v' by (intro conjI refl sound_1p_upd cfg r2)
      qed
    qed
  qed
qed

lemma sound_2pD:
  "sound_2p g0 r \<Longrightarrow> same_configuration g g0 \<Longrightarrow> turn g \<le> 2 \<Longrightarrow>
   r (get_game_state_representation g) = Some v \<Longrightarrow> v = value_2p g"
  unfolding sound_2p_def by blast

lemma sound_2p_upd:
  assumes r: "sound_2p g0 r" and cfg: "same_configuration g g0"
  shows "sound_2p g0 (r(get_game_state_representation g \<mapsto> value_2p g))"
  unfolding sound_2p_def
proof (intro allI impI)
  fix g' v
  assume cfg': "same_configuration g' g0" and t: "turn g' \<le> 2"
    and l: "(r(get_game_state_representation g \<mapsto> value_2p g))
              (get_game_state_representation g') = Some v"
  show "v = value_2p g'"
  proof (cases "get_game_state_representation g' = get_game_state_representation g")
    case True
    with l have "v = value_2p g" by simp
    also have "\<dots> = value_2p g'"
      by (rule value_2p_same_key[OF True[symmetric]])
        (rule same_configuration_trans[OF cfg same_configuration_sym[OF cfg']])
    finally show ?thesis .
  next
    case False
    with l have "r (get_game_state_representation g') = Some v" by simp
    with r cfg' t show ?thesis by (rule sound_2pD)
  qed
qed

lemma sound_2p_empty [simp]: "sound_2p g0 Map.empty"
  by (simp add: sound_2p_def)

lemma gtwp2_partial:
  "sound_2p g0 r \<Longrightarrow> same_configuration g g0 \<Longrightarrow> turn g \<le> 2 \<Longrightarrow>
   get_theoretical_win_probability_2p n g r = Inr (v, r') \<Longrightarrow>
   v = value_2p g \<and> sound_2p g0 r'"
proof (induction n arbitrary: g r v r')
  case 0
  then show ?case by simp
next
  case (Suc n)
  note inv = Suc.prems(1) and cfg = Suc.prems(2) and t = Suc.prems(3) and res = Suc.prems(4)
  have loop: "tot' = fold (\<lambda>c. acc4 (card_share g c) (value_2p (hs g c)))
                       (np_unique (deck g)) (0, 0, 0, 0) \<and> sound_2p g0 ra'"
    if hit: "(hit = dealer_hit \<and> hs = dealer_hit_state) \<or>
             (hit = player_hit \<and> hs = player_hit_state)"
      and ra: "sound_2p g0 ra"
      and l: "hit_loop acc4 hit (get_theoretical_win_probability_2p n) g
                (np_unique (deck g)) (0, 0, 0, 0) ra = Inr (tot', ra')"
    for hit hs ra tot' ra'
  proof (rule hit_loop_partial[where I="sound_2p g0" and val=value_2p, OF _ hit _ ra l])
    fix c r v r'
    assume "sound_2p g0 r"
      and "get_theoretical_win_probability_2p n (hs g c) r = Inr (v, r')"
    moreover have "same_configuration (hs g c) g0"
      using hit same_configuration_trans[OF _ cfg] by auto
    moreover have "turn (hs g c) \<le> 2" using hit t by auto
    ultimately show "v = value_2p (hs g c) \<and> sound_2p g0 r'"
      by (intro Suc.IH)
  qed simp
  show ?case
  proof (cases "r (get_game_state_representation g)")
    case (Some w)
    with res have "r' = r" "r (get_game_state_representation g) = Some v"
      by (simp_all add: gtwp2_unfold)
    with inv cfg t show ?thesis using sound_2pD by blast
  next
    case None
    show ?thesis
    proof (cases g rule: is_game_over_2p_cases)
      case (over result)
      with None res inv show ?thesis by (auto simp: gtwp2_unfold value_2p_unfold)
    next
      case running
      then have t2: "turn g \<noteq> 2"
        by (auto simp: is_game_over_2p_def split: if_splits)
      have "same_configuration (stay g) g0" "turn (stay g) \<le> 2"
        using same_configuration_trans[OF _ cfg] t t2 by simp_all
      note stay_ok = this
      show ?thesis
      proof (cases "turn g = 1")
        case True
        with None running res obtain s1 s2 s3 s4 r1 h1 h2 h3 h4 r2 where
          st: "get_theoretical_win_probability_2p n (stay g) r = Inr ((s1, s2, s3, s4), r1)"
          and l: "hit_loop acc4 dealer_hit (get_theoretical_win_probability_2p n) g
                (np_unique (deck g)) (0, 0, 0, 0) r1 = Inr ((h1, h2, h3, h4), r2)"
          and v: "v = (min s1 h1, 0.5 * s2 + 0.5 * h2, min s3 h3, 0.5 * s4 + 0.5 * h4)"
          and r': "r' = r2(get_game_state_representation g \<mapsto> v)"
          by (auto simp: gtwp2_unfold bind_e_eq_Inr)
        from Suc.IH[OF inv stay_ok st]
        have s: "(s1, s2, s3, s4) = value_2p (stay g)" "sound_2p g0 r1"
          by simp_all
        from loop[OF _ s(2) l, of dealer_hit_state]
        have h: "(h1, h2, h3, h4) =
            fold (\<lambda>c. acc4 (card_share g c) (value_2p (dealer_hit_state g c)))
              (np_unique (deck g)) (0, 0, 0, 0)" and r2: "sound_2p g0 r2"
          by simp_all
        have v': "v = value_2p g"
          unfolding v value_2p_unfold(2)[OF running True] s(1)[symmetric] h[symmetric] by simp
        show ?thesis unfolding r' v' by (intro conjI refl sound_2p_upd cfg r2)
      next
        case False
        with t t2 have le: "turn g \<le> 0" by simp
        from False None running res obtain s1 s2 s3 s4 r1 h1 h2 h3 h4 r2 where
          st: "get_theoretical_win_probability_2p n (stay g) r = Inr ((s1, s2, s3, s4), r1)"
          and l: "hit_loop acc4 player_hit (get_theoretical_win_probability_2p n) g
                (np_unique (deck g)) (0, 0, 0, 0) r1 = Inr ((h1, h2, h3, h4), r2)"
          and v: "v = (max s1 h1, max s2 h2, 0.5 * s3 + 0.5 * h3, 0.5 * s4 + 0.5 * h4)"
          and r': "r' = r2(get_game_state_representation g \<mapsto> v)"
          by (auto simp: gtwp2_unfold bind_e_eq_Inr)
        from Suc.IH[OF inv stay_ok st]
        have s: "(s1, s2, s3, s4) = value_2p (stay g)" "sound_2p g0 r1"
          by simp_all
        from loop[OF _ s(2) l, of player_hit_state]
        have h: "(h1, h2, h3, h4) =
            fold (\<lambda>c. acc4 (card_share g c) (value_2p (player_hit_state g c)))
              (np_unique (deck g)) (0, 0, 0, 0)" and r2: "sound_2p g0 r2"
          by simp_all
        have v': "v = value_2p g"
          unfolding v value_2p_unfold(3)[OF running le] s(1)[symmetric] h[symmetric] by simp
        show ?thesis unfolding r' v' by (intro conjI refl sound_2p_upd cfg r2)
      qed
    qed
  qed
qed

lemma gtwp1_total:
  assumes "sound_1p g0 r" "same_configuration g g0" "turn g \<le> 1"
    "length (deck g) + nat (1 - turn g) < n"
  shows "\<exists>r'. get_theoretical_win_probability_1p n g r = Inr (value_1p g, r') \<and> sound_1p g0 r'"
proof -
  from gtwp1_returns[OF assms(3,4)] obtain v r' where
    "get_theoretical_win_probability_1p n g r = Inr (v, r')" by blast
  with gtwp1_partial[OF assms(1-3) this] show ?thesis by simp
qed

lemma gtwp2_total:
  assumes "sound_2p g0 r" "same_configuration g g0" "turn g \<le> 2"
    "length (deck g) + nat (2 - turn g) < n"
  shows "\<exists>r'. get_theoretical_win_probability_2p n g r = Inr (value_2p g, r') \<and> sound_2p g0 r'"
proof -
  from gtwp2_returns[OF assms(3,4)] obtain v r' where
    "get_theoretical_win_probability_2p n g r = Inr (v, r')" by blast
  with gtwp2_partial[OF assms(1-3) this] show ?thesis by simp
qed

subsection \<open>The combination rules\<close>

lemma built_1p_sound: "built_1p g0 r \<Longrightarrow> sound_1p g0 r"
  by (induction rule: built_1p.induct) (auto dest: gtwp1_partial)

lemma built_2p_sound: "built_2p g0 r \<Longrightarrow> sound_2p g0 r"
  by (induction rule: built_2p.induct) (auto dest: gtwp2_partial)

lemma fold_acc2:
  "fold (\<lambda>c. acc2 (p c) (v c)) cs (a, b) =
     (a + (\<Sum>c\<leftarrow>cs. p c * fst (v c)), b + (\<Sum>c\<leftarrow>cs. p c * snd (v c)))"
  by (induction cs arbitrary: a b) (simp_all add: acc2_def split_beta add.assoc)

lemma fold_acc4:
  "fold (\<lambda>c. acc4 (p c) (v c)) cs (a, b, c', d) =
     (a + (\<Sum>c\<leftarrow>cs. p c * opod (v c)), b + (\<Sum>c\<leftarrow>cs. p c * oprd (v c)),
      c' + (\<Sum>c\<leftarrow>cs. p c * rpod (v c)), d + (\<Sum>c\<leftarrow>cs. p c * rprd (v c)))"
  by (induction cs arbitrary: a b c' d)
    (simp_all add: acc4_def split_beta add.assoc opod_def oprd_def rpod_def rprd_def)

lemma fresh_value_1p:
  assumes "turn g \<le> 1" "length (deck g) + nat (1 - turn g) < n"
  shows "\<exists>r. get_theoretical_win_probability_1p n g Map.empty = Inr (value_1p g, r)"
  using gtwp1_total[of g Map.empty g n] assms by auto

lemma fresh_value_2p:
  assumes "turn g \<le> 2" "length (deck g) + nat (2 - turn g) < n"
  shows "\<exists>r. get_theoretical_win_probability_2p n g Map.empty = Inr (value_2p g, r)"
  using gtwp2_total[of g Map.empty g n] assms by auto

lemma length_hit_state:
  "c \<in> set (deck g) \<Longrightarrow> Suc (length (deck (player_hit_state g c))) = length (deck g)"
  "c \<in> set (deck g) \<Longrightarrow> Suc (length (deck (dealer_hit_state g c))) = length (deck g)"
  using length_pos_if_in_set[of c "deck g"]
  by (simp_all add: player_hit_state_def dealer_hit_state_def length_remove1)

lemma player_turn_1p:
  assumes built: "built_1p g r" and t: "turn g = 0"
    and running: "is_game_over_1p g = (False, None)" and n: "length (deck g) < n"
  shows "\<exists>vs vh.
     (\<exists>r'. get_theoretical_win_probability_1p n (stay g) Map.empty = Inr (vs, r')) \<and>
     (\<forall>c \<in> set (np_unique (deck g)).
        \<exists>r'. get_theoretical_win_probability_1p n (player_hit_state g c) Map.empty
               = Inr (vh c, r')) \<and>
     (\<exists>r'. get_theoretical_win_probability_1p (Suc n) g r =
        Inr ((max (fst vs) (hit_value fst g vh),
              0.5 * snd vs + 0.5 * hit_value snd g vh), r'))"
proof -
  have a: "\<exists>r'. get_theoretical_win_probability_1p n (stay g) Map.empty
          = Inr (value_1p (stay g), r')"
    by (rule fresh_value_1p) (use t n in simp_all)
  have b: "\<forall>c \<in> set (np_unique (deck g)).
      \<exists>r'. get_theoretical_win_probability_1p n (player_hit_state g c) Map.empty
          = Inr (value_1p (player_hit_state g c), r')"
  proof
    fix c assume "c \<in> set (np_unique (deck g))"
    then show "\<exists>r'. get_theoretical_win_probability_1p n (player_hit_state g c) Map.empty
          = Inr (value_1p (player_hit_state g c), r')"
      by (intro fresh_value_1p) (use t n length_hit_state(1)[of c g] in simp_all)
  qed
  have "value_1p g =
     (max (fst (value_1p (stay g))) (hit_value fst g (\<lambda>c. value_1p (player_hit_state g c))),
      0.5 * snd (value_1p (stay g)) +
      0.5 * hit_value snd g (\<lambda>c. value_1p (player_hit_state g c)))"
    using t by (simp add: value_1p_unfold(3)[OF running] fold_acc2 hit_value_def)
  moreover have "\<exists>r'. get_theoretical_win_probability_1p (Suc n) g r = Inr (value_1p g, r')"
    using gtwp1_total[OF built_1p_sound[OF built], of g "Suc n"] t n by auto
  ultimately have c: "\<exists>r'. get_theoretical_win_probability_1p (Suc n) g r =
        Inr ((max (fst (value_1p (stay g)))
                (hit_value fst g (\<lambda>c. value_1p (player_hit_state g c))),
              0.5 * snd (value_1p (stay g)) +
              0.5 * hit_value snd g (\<lambda>c. value_1p (player_hit_state g c))), r')"
    by simp
  show ?thesis
    by (rule exI[of _ "value_1p (stay g)"],
        rule exI[of _ "\<lambda>c. value_1p (player_hit_state g c)"])
      (intro conjI a b c)
qed

lemma player_turn_2p:
  assumes built: "built_2p g r" and t: "turn g = 0"
    and running: "is_game_over_2p g = (False, None)" and n: "length (deck g) + 1 < n"
  shows "\<exists>vs vh.
     (\<exists>r'. get_theoretical_win_probability_2p n (stay g) Map.empty = Inr (vs, r')) \<and>
     (\<forall>c \<in> set (np_unique (deck g)).
        \<exists>r'. get_theoretical_win_probability_2p n (player_hit_state g c) Map.empty
               = Inr (vh c, r')) \<and>
     (\<exists>r'. get_theoretical_win_probability_2p (Suc n) g r =
        Inr ((max (opod vs) (hit_value opod g vh),
              max (oprd vs) (hit_value oprd g vh),
              0.5 * rpod vs + 0.5 * hit_value rpod g vh,
              0.5 * rprd vs + 0.5 * hit_value rprd g vh), r'))"
proof -
  let ?vs = "value_2p (stay g)" and ?vh = "\<lambda>c. value_2p (player_hit_state g c)"
  have a: "\<exists>r'. get_theoretical_win_probability_2p n (stay g) Map.empty = Inr (?vs, r')"
    by (rule fresh_value_2p) (use t n in simp_all)
  have b: "\<forall>c \<in> set (np_unique (deck g)).
      \<exists>r'. get_theoretical_win_probability_2p n (player_hit_state g c) Map.empty = Inr (?vh c, r')"
  proof
    fix c assume "c \<in> set (np_unique (deck g))"
    then show "\<exists>r'. get_theoretical_win_probability_2p n (player_hit_state g c) Map.empty
          = Inr (?vh c, r')"
      by (intro fresh_value_2p) (use t n length_hit_state[of c g] in simp_all)
  qed
  have "value_2p g = (max (opod ?vs) (hit_value opod g ?vh),
              max (oprd ?vs) (hit_value oprd g ?vh),
              0.5 * rpod ?vs + 0.5 * hit_value rpod g ?vh,
              0.5 * rprd ?vs + 0.5 * hit_value rprd g ?vh)"
    using t by (simp add: value_2p_unfold(3)[OF running] fold_acc4 hit_value_def split_beta
        opod_def oprd_def rpod_def rprd_def)
  moreover have "\<exists>r'. get_theoretical_win_probability_2p (Suc n) g r = Inr (value_2p g, r')"
    using gtwp2_total[OF built_2p_sound[OF built], of g "Suc n"] t n by auto
  ultimately have c: "\<exists>r'. get_theoretical_win_probability_2p (Suc n) g r =
        Inr ((max (opod ?vs) (hit_value opod g ?vh),
              max (oprd ?vs) (hit_value oprd g ?vh),
              0.5 * rpod ?vs + 0.5 * hit_value rpod g ?vh,
              0.5 * rprd ?vs + 0.5 * hit_value rprd g ?vh), r')"
    by simp
  show ?thesis
    by (rule exI[of _ ?vs], rule exI[of _ ?vh]) (intro conjI a b c)
qed

lemma dealer_turn_2p:
  assumes built: "built_2p g r" and t: "turn g = 1"
    and running: "is_game_over_2p g = (False, None)" and n: "length (deck g) < n"
  shows "\<exists>vs vh.
     (\<exists>r'. get_theoretical_win_probability_2p n (stay g) Map.empty = Inr (vs, r')) \<and>
     (\<forall>c \<in> set (np_unique (deck g)).
        \<exists>r'. get_theoretical_win_probability_2p n (dealer_hit_state g c) Map.empty
               = Inr (vh c, r')) \<and>
     (\<exists>r'. get_theoretical_win_probability_2p (Suc n) g r =
        Inr ((min (opod vs) (hit_value opod g vh),
              0.5 * oprd vs + 0.5 * hit_value oprd g vh,
              min (rpod vs) (hit_value rpod g vh),
              0.5 * rprd vs + 0.5 * hit_value rprd g vh), r'))"
proof -
  let ?vs = "value_2p (stay g)" and ?vh = "\<lambda>c. value_2p (dealer_hit_state g c)"
  have a: "\<exists>r'. get_theoretical_win_probability_2p n (stay g) Map.empty = Inr (?vs, r')"
    by (rule fresh_value_2p) (use t n in simp_all)
  have b: "\<forall>c \<in> set (np_unique (deck g)).
      \<exists>r'. get_theoretical_win_probability_2p n (dealer_hit_state g c) Map.empty = Inr (?vh c, r')"
  proof
    fix c assume "c \<in> set (np_unique (deck g))"
    then show "\<exists>r'. get_theoretical_win_probability_2p n (dealer_hit_state g c) Map.empty
          = Inr (?vh c, r')"
      by (intro fresh_value_2p) (use t n length_hit_state[of c g] in simp_all)
  qed
  have "value_2p g = (min (opod ?vs) (hit_value opod g ?vh),
              0.5 * oprd ?vs + 0.5 * hit_value oprd g ?vh,
              min (rpod ?vs) (hit_value rpod g ?vh),
              0.5 * rprd ?vs + 0.5 * hit_value rprd g ?vh)"
    using t by (simp add: value_2p_unfold(2)[OF running] fold_acc4 hit_value_def split_beta
        opod_def oprd_def rpod_def rprd_def)
  moreover have "\<exists>r'. get_theoretical_win_probability_2p (Suc n) g r = Inr (value_2p g, r')"
    using gtwp2_total[OF built_2p_sound[OF built], of g "Suc n"] t n by auto
  ultimately have c: "\<exists>r'. get_theoretical_win_probability_2p (Suc n) g r =
        Inr ((min (opod ?vs) (hit_value opod g ?vh),
              0.5 * oprd ?vs + 0.5 * hit_value oprd g ?vh,
              min (rpod ?vs) (hit_value rpod g ?vh),
              0.5 * rprd ?vs + 0.5 * hit_value rprd g ?vh), r')"
    by simp
  show ?thesis
    by (rule exI[of _ ?vs], rule exI[of _ ?vh]) (intro conjI a b c)
qed

text \<open>
  Claim C1. Take a non-terminal state at the player's turn and a memo table the solve can
  hold, with enough recursion depth. Let \<open>vs\<close> be the tuple the analytical solver returns
  (from a fresh table) on the copy with the turn advanced, and \<open>vh c\<close> the tuple it returns on
  the copy with \<open>c\<close> appended to the player's hand and one \<open>c\<close> removed from the deck. Then
  the solver returns at the state, in each slot with an optimal player, the maximum of the
  slot of \<open>vs\<close> and the hit value of the slot, and in each slot with a random player, half
  the slot of \<open>vs\<close> plus half the hit value of the slot. This holds in both variants.
\<close>

theorem player_turn_combines_max_and_average:
  "(built_1p g1 r1 \<and> turn g1 = 0 \<and> is_game_over_1p g1 = (False, None) \<and>
    length (deck g1) < n \<longrightarrow>
     (\<exists>vs vh.
       (\<exists>r'. get_theoretical_win_probability_1p n (stay g1) Map.empty = Inr (vs, r')) \<and>
       (\<forall>c \<in> set (np_unique (deck g1)).
          \<exists>r'. get_theoretical_win_probability_1p n (player_hit_state g1 c) Map.empty
                 = Inr (vh c, r')) \<and>
       (\<exists>r'. get_theoretical_win_probability_1p (Suc n) g1 r1 =
          Inr ((max (fst vs) (hit_value fst g1 vh),
                0.5 * snd vs + 0.5 * hit_value snd g1 vh), r')))) \<and>
   (built_2p g2 r2 \<and> turn g2 = 0 \<and> is_game_over_2p g2 = (False, None) \<and>
    length (deck g2) + 1 < n \<longrightarrow>
     (\<exists>vs vh.
       (\<exists>r'. get_theoretical_win_probability_2p n (stay g2) Map.empty = Inr (vs, r')) \<and>
       (\<forall>c \<in> set (np_unique (deck g2)).
          \<exists>r'. get_theoretical_win_probability_2p n (player_hit_state g2 c) Map.empty
                 = Inr (vh c, r')) \<and>
       (\<exists>r'. get_theoretical_win_probability_2p (Suc n) g2 r2 =
          Inr ((max (opod vs) (hit_value opod g2 vh),
                max (oprd vs) (hit_value oprd g2 vh),
                0.5 * rpod vs + 0.5 * hit_value rpod g2 vh,
                0.5 * rprd vs + 0.5 * hit_value rprd g2 vh), r'))))"
  using player_turn_1p[of g1 r1 n] player_turn_2p[of g2 r2 n] by blast

theorem player_turn_combines_max_and_average_witness:
  "(\<exists>vs vh.
       (\<exists>r'. get_theoretical_win_probability_1p 3 (stay 
      \<lparr>deck_copy = [1, 6, 8], blackjack_num = 8, deck = [1], dealer_hand = [6],
        player_hand = [8], turn = 0, dealer_limit = 6\<rparr>) Map.empty = Inr (vs, r')) \<and>
       (\<forall>c \<in> set (np_unique (deck 
      \<lparr>deck_copy = [1, 6, 8], blackjack_num = 8, deck = [1], dealer_hand = [6],
        player_hand = [8], turn = 0, dealer_limit = 6\<rparr>)).
          \<exists>r'. get_theoretical_win_probability_1p 3 (player_hit_state 
      \<lparr>deck_copy = [1, 6, 8], blackjack_num = 8, deck = [1], dealer_hand = [6],
        player_hand = [8], turn = 0, dealer_limit = 6\<rparr> c) Map.empty
                 = Inr (vh c, r')) \<and>
       (\<exists>r'. get_theoretical_win_probability_1p (Suc 3) 
      \<lparr>deck_copy = [1, 6, 8], blackjack_num = 8, deck = [1], dealer_hand = [6],
        player_hand = [8], turn = 0, dealer_limit = 6\<rparr> Map.empty =
          Inr ((max (fst vs) (hit_value fst 
      \<lparr>deck_copy = [1, 6, 8], blackjack_num = 8, deck = [1], dealer_hand = [6],
        player_hand = [8], turn = 0, dealer_limit = 6\<rparr> vh),
                0.5 * snd vs + 0.5 * hit_value snd 
      \<lparr>deck_copy = [1, 6, 8], blackjack_num = 8, deck = [1], dealer_hand = [6],
        player_hand = [8], turn = 0, dealer_limit = 6\<rparr> vh), r'))) \<and>
   (\<exists>vs vh.
       (\<exists>r'. get_theoretical_win_probability_2p 3 (stay 
      \<lparr>deck_copy = [1, 6, 8], blackjack_num = 8, deck = [1], dealer_hand = [6],
        player_hand = [8], turn = 0\<rparr>) Map.empty = Inr (vs, r')) \<and>
       (\<forall>c \<in> set (np_unique (deck 
      \<lparr>deck_copy = [1, 6, 8], blackjack_num = 8, deck = [1], dealer_hand = [6],
        player_hand = [8], turn = 0\<rparr>)).
          \<exists>r'. get_theoretical_win_probability_2p 3 (player_hit_state 
      \<lparr>deck_copy = [1, 6, 8], blackjack_num = 8, deck = [1], dealer_hand = [6],
        player_hand = [8], turn = 0\<rparr> c) Map.empty
                 = Inr (vh c, r')) \<and>
       (\<exists>r'. get_theoretical_win_probability_2p (Suc 3) 
      \<lparr>deck_copy = [1, 6, 8], blackjack_num = 8, deck = [1], dealer_hand = [6],
        player_hand = [8], turn = 0\<rparr> Map.empty =
          Inr ((max (opod vs) (hit_value opod 
      \<lparr>deck_copy = [1, 6, 8], blackjack_num = 8, deck = [1], dealer_hand = [6],
        player_hand = [8], turn = 0\<rparr> vh),
                max (oprd vs) (hit_value oprd 
      \<lparr>deck_copy = [1, 6, 8], blackjack_num = 8, deck = [1], dealer_hand = [6],
        player_hand = [8], turn = 0\<rparr> vh),
                0.5 * rpod vs + 0.5 * hit_value rpod 
      \<lparr>deck_copy = [1, 6, 8], blackjack_num = 8, deck = [1], dealer_hand = [6],
        player_hand = [8], turn = 0\<rparr> vh,
                0.5 * rprd vs + 0.5 * hit_value rprd 
      \<lparr>deck_copy = [1, 6, 8], blackjack_num = 8, deck = [1], dealer_hand = [6],
        player_hand = [8], turn = 0\<rparr> vh), r')))"
  using player_turn_combines_max_and_average
    [of "\<lparr>deck_copy = [1, 6, 8], blackjack_num = 8, deck = [1], dealer_hand = [6],
        player_hand = [8], turn = 0, dealer_limit = 6\<rparr>" Map.empty 3
        "\<lparr>deck_copy = [1, 6, 8], blackjack_num = 8, deck = [1], dealer_hand = [6],
        player_hand = [8], turn = 0\<rparr>" Map.empty]
  by (simp add: built_1p.intros(1) built_2p.intros(1) is_game_over_1p_def is_game_over_2p_def)

text \<open>
  Claim C2. In the two-player variant, take a non-terminal state at the dealer's turn and a
  memo table the solve can hold, with enough recursion depth. With \<open>vs\<close> the tuple returned
  on the copy with the turn advanced and \<open>vh c\<close> the tuple returned on the copy in which the
  dealer has drawn \<open>c\<close>, the solver returns in the slots with an optimal dealer the minimum
  of the slot of \<open>vs\<close> and the hit value of the slot, and in the slots with a random dealer
  half of each.
\<close>

theorem dealer_turn_combines_min_and_average:
  "built_2p g r \<and> turn g = 1 \<and> is_game_over_2p g = (False, None) \<and> length (deck g) < n \<longrightarrow>
     (\<exists>vs vh.
       (\<exists>r'. get_theoretical_win_probability_2p n (stay g) Map.empty = Inr (vs, r')) \<and>
       (\<forall>c \<in> set (np_unique (deck g)).
          \<exists>r'. get_theoretical_win_probability_2p n (dealer_hit_state g c) Map.empty
                 = Inr (vh c, r')) \<and>
       (\<exists>r'. get_theoretical_win_probability_2p (Suc n) g r =
          Inr ((min (opod vs) (hit_value opod g vh),
                0.5 * oprd vs + 0.5 * hit_value oprd g vh,
                min (rpod vs) (hit_value rpod g vh),
                0.5 * rprd vs + 0.5 * hit_value rprd g vh), r')))"
  using dealer_turn_2p[of g r n] by blast

theorem dealer_turn_combines_min_and_average_witness:
  "(\<exists>vs vh.
       (\<exists>r'. get_theoretical_win_probability_2p 2 (stay 
      \<lparr>deck_copy = [1, 6, 8], blackjack_num = 8, deck = [1], dealer_hand = [6],
        player_hand = [8], turn = 1\<rparr>) Map.empty = Inr (vs, r')) \<and>
       (\<forall>c \<in> set (np_unique (deck 
      \<lparr>deck_copy = [1, 6, 8], blackjack_num = 8, deck = [1], dealer_hand = [6],
        player_hand = [8], turn = 1\<rparr>)).
          \<exists>r'. get_theoretical_win_probability_2p 2 (dealer_hit_state 
      \<lparr>deck_copy = [1, 6, 8], blackjack_num = 8, deck = [1], dealer_hand = [6],
        player_hand = [8], turn = 1\<rparr> c) Map.empty
                 = Inr (vh c, r')) \<and>
       (\<exists>r'. get_theoretical_win_probability_2p (Suc 2) 
      \<lparr>deck_copy = [1, 6, 8], blackjack_num = 8, deck = [1], dealer_hand = [6],
        player_hand = [8], turn = 1\<rparr> Map.empty =
          Inr ((min (opod vs) (hit_value opod 
      \<lparr>deck_copy = [1, 6, 8], blackjack_num = 8, deck = [1], dealer_hand = [6],
        player_hand = [8], turn = 1\<rparr> vh),
                0.5 * oprd vs + 0.5 * hit_value oprd 
      \<lparr>deck_copy = [1, 6, 8], blackjack_num = 8, deck = [1], dealer_hand = [6],
        player_hand = [8], turn = 1\<rparr> vh,
                min (rpod vs) (hit_value rpod 
      \<lparr>deck_copy = [1, 6, 8], blackjack_num = 8, deck = [1], dealer_hand = [6],
        player_hand = [8], turn = 1\<rparr> vh),
                0.5 * rprd vs + 0.5 * hit_value rprd 
      \<lparr>deck_copy = [1, 6, 8], blackjack_num = 8, deck = [1], dealer_hand = [6],
        player_hand = [8], turn = 1\<rparr> vh), r')))"
  using dealer_turn_combines_min_and_average
    [of "\<lparr>deck_copy = [1, 6, 8], blackjack_num = 8, deck = [1], dealer_hand = [6],
        player_hand = [8], turn = 1\<rparr>" Map.empty 2]
  by (simp add: built_2p.intros(1) is_game_over_2p_def)

subsection \<open>A policy that follows the max rule attains the optimal value\<close>












end
